theory Spec2Isabelle
  imports Main "HOL-Library.Sublist" "HOL-Library.Multiset"
begin

section \<open>Data model\<close>

text \<open>
  The class \<open>Project\<close> of the build-info package owns five memoized stage results
  (package manager, workspace, build systems, frameworks, settings). A JavaScript
  field that is \<open>undefined\<close> until its stage has stored something is an \<open>option\<close>
  whose \<open>None\<close> is \<open>undefined\<close>; a field of type \<open>T | null\<close> is a nested option,
  so \<open>Some None\<close> is \<open>null\<close>.

  A promise that rejects is \<open>Inl e\<close>, one that resolves to \<open>v\<close> is \<open>Inr v\<close>.
\<close>

datatype error = Error string

record PkgManagerFields =
  pm_name :: string
  installCommand :: string
  runCommand :: string
  lockFiles :: "string list"

record WorkspacePackage =
  path :: string
  pkg_name :: "string option"

record WorkspaceInfo =
  rootDir :: string
  packages :: "WorkspacePackage list"

text \<open>The fields of a build system as \<open>Buck\<close> declares them.\<close>

record BuildSystem =
  bs_id :: string
  bs_name :: string
  configFiles :: "string list"

datatype Confidence = Lowest | Medium | Highest

text \<open>
  What a framework is, apart from the category of a match: the spec's example has a
  match of the generic build tool in the category generator.
\<close>

datatype FrameworkKind = StaticSiteGenerator | GenericBuildTool | OtherFramework

record DetectedFramework =
  fw_id :: string
  fw_name :: string
  kind :: FrameworkKind
  category :: string
  confidence :: Confidence

record Settings =
  packagePath :: string
  buildCommand :: string
  publishDirectory :: string

text \<open>
  The file system gateway. \<open>findUp names cwd stopAt\<close> is the asynchronous upward
  search, which may reject; the path operations are synchronous.
\<close>

record FileSystem =
  cwd :: string
  resolve :: "string \<Rightarrow> string \<Rightarrow> string"
  isAbsolute :: "string \<Rightarrow> bool"
  relative :: "string \<Rightarrow> string \<Rightarrow> string"
  join :: "string \<Rightarrow> string \<Rightarrow> string"
  findUp :: "string list \<Rightarrow> string \<Rightarrow> string option \<Rightarrow> error + string option"

text \<open>The events of the type \<open>Events\<close>, each with its payload.\<close>

datatype Event =
    Ev_detectPackageManager "PkgManagerFields option"
  | Ev_detectedWorkspaceGlobs
  | Ev_detectWorkspaces "WorkspaceInfo option"
  | Ev_detectBuildsystems "BuildSystem list"
  | Ev_detectFrameworks "(string \<times> DetectedFramework list) list"
  | Ev_detectSettings "Settings list"

datatype Stage = StagePackageManager | StageWorkspace | StageBuildSystems
  | StageFrameworks | StageSettings

text \<open>
  The project. \<open>frameworks\<close> is a JavaScript \<open>Map\<close>: an association list in insertion
  order with unique keys. Three fields are not fields of the class but logs of what
  the object did, kept so that theorems can speak about it: \<open>emitted\<close> is the list of
  events handed to \<open>events.emit\<close>, \<open>reported\<close> the errors handed to \<open>report\<close>, and
  \<open>ran\<close> the stages whose detection logic was started, each oldest first. The
  fields that no accessor reads or writes (\<open>jsWorkspaceRoot\<close>, the environment, the
  bugsnag client, the node version) are left out.
\<close>

record Project =
  fs :: FileSystem
  root :: "string option"
  baseDirectory :: string
  relativeBaseDirectory :: string
  packageManager :: "PkgManagerFields option option"
  workspace :: "WorkspaceInfo option option"
  buildSystems :: "BuildSystem list option"
  settings :: "Settings list option"
  frameworks :: "(string \<times> DetectedFramework list) list option"
  emitted :: "Event list"
  reported :: "error list"
  ran :: "Stage list"

section \<open>The constructor\<close>

text \<open>JavaScript truthiness of a \<open>string | undefined\<close>: defined and not empty.\<close>

definition truthy :: "string option \<Rightarrow> bool" where
  "truthy s = (case s of None \<Rightarrow> False | Some v \<Rightarrow> v \<noteq> [])"

text \<open>\<open>a || b\<close> on strings.\<close>

definition or_else :: "string option \<Rightarrow> string \<Rightarrow> string" where
  "or_else s d = (case s of None \<Rightarrow> d | Some v \<Rightarrow> if v = [] then d else v)"

text \<open>
  \<open>constructor(fs, baseDirectory?, root?)\<close>. The stage results start undefined and
  the logs empty.
\<close>

definition Project_constructor ::
  "FileSystem \<Rightarrow> string option \<Rightarrow> string option \<Rightarrow> Project" where
  "Project_constructor fs0 baseDirectory0 root0 =
    (let base = resolve fs0 (or_else root0 [])
                  (case baseDirectory0 of Some b \<Rightarrow> b | None \<Rightarrow> cwd fs0);
         root1 = (if truthy root0 then Some (resolve fs0 (cwd fs0) (or_else root0 [])) else None);
         root2 = (if root1 = Some base then None else root1);
         rel = (case baseDirectory0 of
                  Some b \<Rightarrow> if \<not> isAbsolute fs0 b then b
                            else relative fs0 (or_else root2 (cwd fs0)) base
                | None \<Rightarrow> relative fs0 (or_else root2 (cwd fs0)) base)
     in \<lparr> fs = fs0\<lparr>cwd := base\<rparr>, root = root2, baseDirectory = base,
          relativeBaseDirectory = rel,
          packageManager = None, workspace = None, buildSystems = None,
          settings = None, frameworks = None,
          emitted = [], reported = [], ran = [] \<rparr>)"

text \<open>
  \<open>r\<close> is a strict ancestor directory of \<open>b\<close>: \<open>b\<close> continues \<open>r\<close> with a path
  separator and more.
\<close>

definition strict_ancestor :: "string \<Rightarrow> string \<Rightarrow> bool" where
  "strict_ancestor r b =
     (r \<noteq> b \<and> prefix (if r \<noteq> [] \<and> last r = CHR ''/'' then r else r @ ''/'') b)"

text \<open>
  A small file system with POSIX path conventions on one level, for evaluating the
  constructor: a second argument that starts with a slash is already resolved.
\<close>

fun starts_with_slash :: "string \<Rightarrow> bool" where
  "starts_with_slash [] = False"
| "starts_with_slash (c # cs) = (c = CHR ''/'')"

definition posix_fs :: FileSystem where
  "posix_fs = \<lparr> cwd = ''/'',
     resolve = (\<lambda>a b. if starts_with_slash b then b
                      else if starts_with_slash a then (if b = [] then a else a @ ''/'' @ b)
                      else ''/'' @ a @ (if b = [] then [] else ''/'' @ b)),
     isAbsolute = starts_with_slash,
     relative = (\<lambda>a b. if prefix (a @ ''/'') b then drop (length a + 1) b else b),
     join = (\<lambda>a b. if a = [] then b else if b = [] then a else a @ ''/'' @ b),
     findUp = (\<lambda>names c stopAt. Inr None) \<rparr>"

section \<open>Collaborators\<close>

text \<open>
  A call site of \<open>Promise.all\<close>: the build-system detectors, the framework detectors
  of one path, the per-package callbacks of the workspace fan-out.
\<close>

datatype Join = JoinBuildSystems | JoinFrameworks "string option" | JoinPackages

text \<open>
  What the class imports from modules that are not among the source files is a
  parameter: the functions \<open>detectPackageManager(project)\<close>, \<open>detectWorkspaces(project)\<close>
  and \<open>getBuildSettings(project)\<close>, the registries \<open>buildSystems\<close> and \<open>frameworks\<close>
  (a framework detector is its \<open>detect\<close> on a project and a path), whether a listener
  of \<open>events.emit\<close> throws, whether the reporter throws, and the scheduler:
  \<open>completes_next j k\<close> picks, among the promises of join \<open>j\<close> still pending at step
  \<open>k\<close>, the one that settles next (taken modulo their number, so that every
  function is a schedule and every completion order is some function's).
  A collaborator reads the project with its logs, so its answer may change from one
  call to the next.
\<close>

record Env =
  detectPackageManager_impl :: "Project \<Rightarrow> error + PkgManagerFields option"
  detectWorkspaces_impl :: "Project \<Rightarrow> error + WorkspaceInfo option"
  buildSystems_registry :: "BuildSystem list"
  frameworks_registry :: "(Project \<Rightarrow> string option \<Rightarrow> error + DetectedFramework option) list"
  getBuildSettings_impl :: "Project \<Rightarrow> error + Settings list"
  emit_throws :: "Event \<Rightarrow> Project \<Rightarrow> error option"
  report_throws :: "error \<Rightarrow> Project \<Rightarrow> error option"
  completes_next :: "Join \<Rightarrow> nat \<Rightarrow> nat"

section \<open>Promises\<close>

text \<open>The order in which pending tasks settle under a scheduler.\<close>

function schedule :: "(nat \<Rightarrow> nat) \<Rightarrow> nat \<Rightarrow> 'a list \<Rightarrow> 'a list" where
  "schedule pick k [] = []"
| "schedule pick k (x # xs) =
     (x # xs) ! (pick k mod length (x # xs))
       # schedule pick (Suc k)
           (take (pick k mod length (x # xs)) (x # xs)
              @ drop (Suc (pick k mod length (x # xs))) (x # xs))"
  by pat_completeness auto
termination
proof (relation "measure (\<lambda>(pick, k, ps). length ps)")
  show "wf (measure (\<lambda>(pick :: nat \<Rightarrow> nat, k :: nat, ps :: 'a list). length ps))"
    by simp
next
  fix pick :: "nat \<Rightarrow> nat" and k :: nat and x :: 'a and xs :: "'a list"
  define ps where "ps = x # xs"
  define i where "i = pick k mod length ps"
  have "i < length ps"
    unfolding i_def by (rule mod_less_divisor) (simp add: ps_def)
  then have "length (take i ps @ drop (Suc i) ps) < length ps"
    by simp
  then show "((pick, Suc k, take (pick k mod length (x # xs)) (x # xs)
              @ drop (Suc (pick k mod length (x # xs))) (x # xs)), (pick, k, x # xs))
        \<in> measure (\<lambda>(pick, k, ps). length ps)"
    unfolding i_def ps_def by simp
qed

text \<open>
  \<open>Promise.all\<close>: the result array has one slot per promise; a promise that resolves
  writes its slot, the first that rejects rejects the whole.
\<close>

fun settle :: "(nat \<times> (error + 'a)) list \<Rightarrow> 'a option list \<Rightarrow> error + 'a option list" where
  "settle [] slots = Inr slots"
| "settle ((i, Inl e) # rest) slots = Inl e"
| "settle ((i, Inr v) # rest) slots = settle rest (slots[i := Some v])"

text \<open>\<open>.filter(Boolean)\<close> on an array of objects and \<open>undefined\<close>.\<close>

fun filter_Boolean :: "'a option list \<Rightarrow> 'a list" where
  "filter_Boolean [] = []"
| "filter_Boolean (None # xs) = filter_Boolean xs"
| "filter_Boolean (Some x # xs) = x # filter_Boolean xs"

definition promise_all :: "(nat \<Rightarrow> nat) \<Rightarrow> (error + 'a) list \<Rightarrow> error + 'a list" where
  "promise_all pick rs =
     (case settle (schedule pick 0 (enumerate 0 rs)) (replicate (length rs) None) of
        Inl e \<Rightarrow> Inl e
      | Inr slots \<Rightarrow> Inr (filter_Boolean slots))"

text \<open>\<open>Map.prototype.set\<close>: an existing key keeps its place, a new one goes last.\<close>

fun map_set :: "'k \<Rightarrow> 'v \<Rightarrow> ('k \<times> 'v) list \<Rightarrow> ('k \<times> 'v) list" where
  "map_set k v [] = [(k, v)]"
| "map_set k v ((a, b) # ps) = (if a = k then (k, v) # ps else (a, b) # map_set k v ps)"

section \<open>Reporting and events\<close>

text \<open>
  \<open>report(error)\<close> hands the error to the logger and the reporter, \<open>events.emit\<close> the
  event to the listeners; both are logged, then either may throw.
\<close>

definition report :: "Env \<Rightarrow> error \<Rightarrow> Project \<Rightarrow> error option \<times> Project" where
  "report env e p = (report_throws env e p, p\<lparr>reported := reported p @ [e]\<rparr>)"

definition emit :: "Env \<Rightarrow> Event \<Rightarrow> Project \<Rightarrow> error option \<times> Project" where
  "emit env ev p = (emit_throws env ev p, p\<lparr>emitted := emitted p @ [ev]\<rparr>)"

text \<open>
  The shape \<open>catch (error) { this.report(error); return v }\<close>: the accessor resolves
  to \<open>v\<close> unless reporting itself throws.
\<close>

definition catch_report :: "Env \<Rightarrow> error \<Rightarrow> Project \<Rightarrow> 'a \<Rightarrow> (error + 'a) \<times> Project" where
  "catch_report env e p v =
     (case report env e p of
        (Some e', p') \<Rightarrow> (Inl e', p')
      | (None, p') \<Rightarrow> (Inr v, p'))"

section \<open>The stage accessors\<close>

text \<open>
  An accessor returns how its promise settles and the project as it left it.
  \<open>detectPackageManager()\<close>: the catch clause returns \<open>null\<close> and neither stores nor
  reports.
\<close>

definition detectPackageManager ::
  "Env \<Rightarrow> Project \<Rightarrow> (error + PkgManagerFields option) \<times> Project" where
  "detectPackageManager env p =
     (case packageManager p of
        Some pm \<Rightarrow> (Inr pm, p)
      | None \<Rightarrow>
          (let p1 = p\<lparr>ran := ran p @ [StagePackageManager]\<rparr> in
           case detectPackageManager_impl env p1 of
             Inl e \<Rightarrow> (Inr None, p1)
           | Inr pm \<Rightarrow>
               (case emit env (Ev_detectPackageManager pm) (p1\<lparr>packageManager := Some pm\<rparr>) of
                  (Some e, p2) \<Rightarrow> (Inr None, p2)
                | (None, p2) \<Rightarrow> (Inr pm, p2))))"

text \<open>\<open>detectWorkspaces()\<close>; the package manager is awaited outside the try block.\<close>

definition detectWorkspaces ::
  "Env \<Rightarrow> Project \<Rightarrow> (error + WorkspaceInfo option) \<times> Project" where
  "detectWorkspaces env p =
     (case workspace p of
        Some w \<Rightarrow> (Inr w, p)
      | None \<Rightarrow>
          (case detectPackageManager env p of
             (Inl e, p0) \<Rightarrow> (Inl e, p0)
           | (Inr _, p0) \<Rightarrow>
               (let p1 = p0\<lparr>ran := ran p0 @ [StageWorkspace]\<rparr> in
                case detectWorkspaces_impl env p1 of
                  Inl e \<Rightarrow> catch_report env e p1 None
                | Inr w \<Rightarrow>
                    (case emit env (Ev_detectWorkspaces w) (p1\<lparr>workspace := Some w\<rparr>) of
                       (Some e, p2) \<Rightarrow> catch_report env e p2 None
                     | (None, p2) \<Rightarrow> (Inr w, p2)))))"

text \<open>
  \<open>detect()\<close> of a build system, as \<open>Buck\<close> has it: the upward search for any of the
  config files from the base directory, stopping at the root.
\<close>

definition BuildSystem_detect :: "Project \<Rightarrow> BuildSystem \<Rightarrow> error + BuildSystem option" where
  "BuildSystem_detect p b =
     (case findUp (fs p) (configFiles b) (baseDirectory p) (root p) of
        Inl e \<Rightarrow> Inl e
      | Inr config \<Rightarrow> Inr (if truthy config then Some b else None))"

text \<open>The expression assigned to \<open>this.buildSystems\<close>.\<close>

definition detectBuildSystem_all :: "Env \<Rightarrow> Project \<Rightarrow> error + BuildSystem list" where
  "detectBuildSystem_all env p =
     (case promise_all (completes_next env JoinBuildSystems)
             (map (BuildSystem_detect p) (buildSystems_registry env)) of
        Inl e \<Rightarrow> Inl e
      | Inr rs \<Rightarrow> Inr (filter_Boolean rs))"

definition detectBuildSystem ::
  "Env \<Rightarrow> Project \<Rightarrow> (error + BuildSystem list) \<times> Project" where
  "detectBuildSystem env p =
     (case buildSystems p of
        Some bs \<Rightarrow> (Inr bs, p)
      | None \<Rightarrow>
          (case detectWorkspaces env p of
             (Inl e, p0) \<Rightarrow> (Inl e, p0)
           | (Inr _, p0) \<Rightarrow>
               (let p1 = p0\<lparr>ran := ran p0 @ [StageBuildSystems]\<rparr> in
                case detectBuildSystem_all env p1 of
                  Inl e \<Rightarrow> catch_report env e p1 []
                | Inr bs \<Rightarrow>
                    (case emit env (Ev_detectBuildsystems bs) (p1\<lparr>buildSystems := Some bs\<rparr>) of
                       (Some e, p2) \<Rightarrow> catch_report env e p2 []
                     | (None, p2) \<Rightarrow> (Inr bs, p2)))))"

section \<open>Frameworks\<close>

fun conf_rank :: "Confidence \<Rightarrow> nat" where
  "conf_rank Lowest = 0"
| "conf_rank Medium = 1"
| "conf_rank Highest = 2"

text \<open>
  Modelled from the spec: the first rule of the relevance resolver. A match is
  outranked in a list when the list holds a match of the same category and of
  higher confidence.
\<close>

definition outranked :: "DetectedFramework list \<Rightarrow> DetectedFramework \<Rightarrow> bool" where
  "outranked ms m =
     list_ex (\<lambda>m'. category m' = category m
                  \<and> conf_rank (confidence m) < conf_rank (confidence m')) ms"

text \<open>
  Modelled from the spec: the matches of equal top confidence. A match has the top
  confidence of a list when none in the list has a higher one; \<open>top_generator\<close> and
  \<open>top_tool\<close> are the static-site generators and the generic build tools among them.
\<close>

definition at_top :: "DetectedFramework list \<Rightarrow> DetectedFramework \<Rightarrow> bool" where
  "at_top ms m = (\<not> list_ex (\<lambda>m'. conf_rank (confidence m) < conf_rank (confidence m')) ms)"

definition top_generator :: "DetectedFramework list \<Rightarrow> DetectedFramework \<Rightarrow> bool" where
  "top_generator ms m = (kind m = StaticSiteGenerator \<and> at_top ms m)"

definition top_tool :: "DetectedFramework list \<Rightarrow> DetectedFramework \<Rightarrow> bool" where
  "top_tool ms m = (kind m = GenericBuildTool \<and> at_top ms m)"

text \<open>
  Modelled from the spec: only true category overlap triggers suppression. A generic
  build tool at the top confidence is overlapped when a static-site generator at
  the top confidence has its category.
\<close>

definition overlapped :: "DetectedFramework list \<Rightarrow> DetectedFramework \<Rightarrow> bool" where
  "overlapped ms m =
     (top_tool ms m \<and> list_ex (\<lambda>m'. top_generator ms m' \<and> category m' = category m) ms)"

text \<open>
  \<open>refill P xs q\<close> puts the elements of \<open>q\<close>, in their order, into the places that the
  elements with \<open>P\<close> have in \<open>xs\<close>; every other element stays where it is.
\<close>

fun refill :: "('a \<Rightarrow> bool) \<Rightarrow> 'a list \<Rightarrow> 'a list \<Rightarrow> 'a list" where
  "refill P [] q = []"
| "refill P (x # xs) q =
     (if P x then (case q of [] \<Rightarrow> x # refill P xs [] | y # q' \<Rightarrow> y # refill P xs q')
      else x # refill P xs q)"

text \<open>
  Modelled from the spec: ranking. Among the matches at the top confidence the static-site generators come
  before the generic build tools; within the generators, within the tools, and for
  every other match the registration order decides.
\<close>

definition ranked :: "DetectedFramework list \<Rightarrow> DetectedFramework list" where
  "ranked ms =
     refill (\<lambda>m. top_generator ms m \<or> top_tool ms m) ms
       (filter (top_generator ms) ms @ filter (top_tool ms) ms)"

text \<open>
  Modelled from the spec: \<open>filterByRelevance\<close> of \<open>frameworks/framework.js\<close>, which is
  not among the source files. The spec's relevance resolver has three rules.
  It drops a lower-confidence match that refers to the same category as a
  higher-confidence match present for the path. Among the remaining matches of
  equal top confidence a static-site generator is kept in preference to, and
  ranked above, a generic build tool: the tool is suppressed when their categories
  overlap, and both are retained when they do not. Registration order is preserved
  among the surviving matches as the final tie-break.
\<close>

definition filterByRelevance :: "DetectedFramework list \<Rightarrow> DetectedFramework list" where
  "filterByRelevance detected =
     (let remaining = filter (\<lambda>m. \<not> outranked detected m) detected;
          kept = filter (\<lambda>m. \<not> overlapped remaining m) remaining
      in ranked kept)"

text \<open>
  \<open>detectFrameworksInPath(path?)\<close>: every registered detector on the path, the matches
  resolved by relevance; any rejection gives the empty list.
\<close>

definition detectFrameworksInPath ::
  "Env \<Rightarrow> Project \<Rightarrow> string option \<Rightarrow> DetectedFramework list" where
  "detectFrameworksInPath env p pth =
     (case promise_all (completes_next env (JoinFrameworks pth))
             (map (\<lambda>detect. detect p pth) (frameworks_registry env)) of
        Inl e \<Rightarrow> []
      | Inr rs \<Rightarrow> filterByRelevance (filter_Boolean rs))"

text \<open>
  The workspace fan-out: one callback per package, all started on the project as it
  is then; each stores its result under the package path when it completes.
\<close>

definition detectFrameworks_packages ::
  "Env \<Rightarrow> Project \<Rightarrow> WorkspaceInfo \<Rightarrow> (string \<times> DetectedFramework list) list" where
  "detectFrameworks_packages env p w =
     foldl (\<lambda>m pkg. map_set (path pkg)
                      (detectFrameworksInPath env p (Some (join (fs p) (rootDir w) (path pkg)))) m)
       [] (schedule (completes_next env JoinPackages) 0 (packages w))"

text \<open>
  The project on which the framework detectors start: build systems awaited, the
  map new and empty.
\<close>

definition detectFrameworks_start :: "Project \<Rightarrow> Project" where
  "detectFrameworks_start p0 = p0\<lparr>frameworks := Some [], ran := ran p0 @ [StageFrameworks]\<rparr>"

text \<open>\<open>[...this.frameworks.values()].flat()\<close>\<close>

definition flat_values :: "(string \<times> DetectedFramework list) list \<Rightarrow> DetectedFramework list" where
  "flat_values m = concat (map snd m)"

text \<open>\<open>detectFrameworks()\<close>; its result is the flat list, or \<open>null\<close> from the catch clause.\<close>

definition detectFrameworks ::
  "Env \<Rightarrow> Project \<Rightarrow> (error + DetectedFramework list option) \<times> Project" where
  "detectFrameworks env p =
     (case frameworks p of
        Some m \<Rightarrow> (Inr (Some (flat_values m)), p)
      | None \<Rightarrow>
          (case detectBuildSystem env p of
             (Inl e, p0) \<Rightarrow> catch_report env e p0 None
           | (Inr _, p0) \<Rightarrow>
               (let p1 = detectFrameworks_start p0;
                    m = (case workspace p1 of
                           Some (Some w) \<Rightarrow> detectFrameworks_packages env p1 w
                         | _ \<Rightarrow> map_set [] (detectFrameworksInPath env p1 None) [])
                in case emit env (Ev_detectFrameworks m) (p1\<lparr>frameworks := Some m\<rparr>) of
                     (Some e, p2) \<Rightarrow> catch_report env e p2 None
                   | (None, p2) \<Rightarrow> (Inr (Some (flat_values m)), p2))))"

section \<open>Settings\<close>

text \<open>\<open>this.settings\<close> where the accessor returns it; the field is an array by then.\<close>

definition this_settings :: "Project \<Rightarrow> Settings list" where
  "this_settings p = (case settings p of Some s \<Rightarrow> s | None \<Rightarrow> [])"

text \<open>The shape \<open>catch (error) { this.report(error) }\<close> followed by \<open>return this.settings\<close>.\<close>

definition catch_report_settings :: "Env \<Rightarrow> error \<Rightarrow> Project \<Rightarrow> (error + Settings list) \<times> Project" where
  "catch_report_settings env e p =
     (case report env e p of
        (Some e', p') \<Rightarrow> (Inl e', p')
      | (None, p') \<Rightarrow> (Inr (this_settings p'), p'))"

definition getBuildSettings ::
  "Env \<Rightarrow> Project \<Rightarrow> (error + Settings list) \<times> Project" where
  "getBuildSettings env p =
     (case settings p of
        Some s \<Rightarrow> (Inr s, p)
      | None \<Rightarrow>
          (case detectFrameworks env (p\<lparr>settings := Some []\<rparr>) of
             (Inl e, p0) \<Rightarrow> catch_report_settings env e p0
           | (Inr _, p0) \<Rightarrow>
               (let p1 = p0\<lparr>ran := ran p0 @ [StageSettings]\<rparr> in
                case getBuildSettings_impl env p1 of
                  Inl e \<Rightarrow> catch_report_settings env e p1
                | Inr s \<Rightarrow>
                    (case emit env (Ev_detectSettings s) (p1\<lparr>settings := Some s\<rparr>) of
                       (Some e, p2) \<Rightarrow> catch_report_settings env e p2
                     | (None, p2) \<Rightarrow> (Inr (this_settings p2), p2)))))"

section \<open>Two calls in flight\<close>

text \<open>
  An asynchronous function runs up to its first \<open>await\<close> when it is called and goes
  on when the awaited promise has settled. \<open>detectPackageManager()\<close> has one \<open>await\<close>,
  on the detection it started; a call is either suspended there, holding how that
  detection will settle, or has returned the stored value at once.
\<close>

datatype PackageManagerCall =
    Awaiting "error + PkgManagerFields option"
  | Returned "PkgManagerFields option"

definition detectPackageManager_call :: "Env \<Rightarrow> Project \<Rightarrow> PackageManagerCall \<times> Project" where
  "detectPackageManager_call env p =
     (case packageManager p of
        Some pm \<Rightarrow> (Returned pm, p)
      | None \<Rightarrow>
          (let p1 = p\<lparr>ran := ran p @ [StagePackageManager]\<rparr>
           in (Awaiting (detectPackageManager_impl env p1), p1)))"

definition detectPackageManager_resume ::
  "Env \<Rightarrow> PackageManagerCall \<Rightarrow> Project \<Rightarrow> PkgManagerFields option \<times> Project" where
  "detectPackageManager_resume env c p =
     (case c of
        Returned pm \<Rightarrow> (pm, p)
      | Awaiting (Inl e) \<Rightarrow> (None, p)
      | Awaiting (Inr pm) \<Rightarrow>
          (case emit env (Ev_detectPackageManager pm) (p\<lparr>packageManager := Some pm\<rparr>) of
             (Some e, p2) \<Rightarrow> (None, p2)
           | (None, p2) \<Rightarrow> (pm, p2)))"

text \<open>
  Two callers: both call before either is resumed; then the two calls are resumed,
  in either order, as their detections settle. The result is what the first and
  the second caller receive, and the project.
\<close>

datatype ResumeOrder = FirstCallFirst | SecondCallFirst

definition two_callers ::
  "Env \<Rightarrow> ResumeOrder \<Rightarrow> Project \<Rightarrow>
     (PkgManagerFields option \<times> PkgManagerFields option) \<times> Project" where
  "two_callers env ord p =
     (case detectPackageManager_call env p of (c1, p1) \<Rightarrow>
      case detectPackageManager_call env p1 of (c2, p2) \<Rightarrow>
      (case ord of
         FirstCallFirst \<Rightarrow>
           (case detectPackageManager_resume env c1 p2 of (v1, p3) \<Rightarrow>
            case detectPackageManager_resume env c2 p3 of (v2, p4) \<Rightarrow> ((v1, v2), p4))
       | SecondCallFirst \<Rightarrow>
           (case detectPackageManager_resume env c2 p2 of (v2, p3) \<Rightarrow>
            case detectPackageManager_resume env c1 p3 of (v1, p4) \<Rightarrow> ((v1, v2), p4))))"

section \<open>The resolvers behind the first two stages\<close>

text \<open>
  Modelled from the spec: the package manager resolver
  (\<open>package-managers/detect-package-manager.js\<close>, not among the source files). It
  evaluates the priority-ordered list of known descriptors; for each it looks for
  the lockfile or config marker from the base directory upward to the root
  boundary, and returns the first descriptor whose marker is found; \<open>null\<close> when
  none matched.
\<close>

fun packageManagerResolver :: "PkgManagerFields list \<Rightarrow> Project \<Rightarrow> error + PkgManagerFields option" where
  "packageManagerResolver [] p = Inr None"
| "packageManagerResolver (d # ds) p =
     (case findUp (fs p) (lockFiles d) (baseDirectory p) (root p) of
        Inl e \<Rightarrow> Inl e
      | Inr marker \<Rightarrow> if truthy marker then Inr (Some d) else packageManagerResolver ds p)"

text \<open>
  Modelled from the spec: the workspace resolver (\<open>workspaces/detect-workspace.js\<close>,
  not among the source files). If the package manager is \<open>null\<close> it short-circuits
  to \<open>null\<close>; otherwise it locates the uppermost manifest that declares workspace
  globs and expands them, which is the parameter \<open>locate\<close>.
\<close>

definition workspaceResolver ::
  "(Project \<Rightarrow> error + WorkspaceInfo option) \<Rightarrow> Project \<Rightarrow> error + WorkspaceInfo option" where
  "workspaceResolver locate p =
     (if packageManager p = Some None then Inr None else locate p)"

section \<open>Stage events\<close>

text \<open>
  The stage-completed events of the stages up to frameworks that have a stored
  result, in pipeline order, each carrying the stored result.
\<close>

definition stage_events :: "Project \<Rightarrow> Event list" where
  "stage_events p =
     (case packageManager p of Some v \<Rightarrow> [Ev_detectPackageManager v] | None \<Rightarrow> [])
     @ (case workspace p of Some v \<Rightarrow> [Ev_detectWorkspaces v] | None \<Rightarrow> [])
     @ (case buildSystems p of Some v \<Rightarrow> [Ev_detectBuildsystems v] | None \<Rightarrow> [])
     @ (case frameworks p of Some v \<Rightarrow> [Ev_detectFrameworks v] | None \<Rightarrow> [])"

text \<open>A build system's marker is found: the upward search resolves to a path.\<close>

definition marker_found :: "Project \<Rightarrow> BuildSystem \<Rightarrow> bool" where
  "marker_found p b =
     (case findUp (fs p) (configFiles b) (baseDirectory p) (root p) of
        Inl e \<Rightarrow> False
      | Inr config \<Rightarrow> truthy config)"

section \<open>Projects and collaborators to evaluate on\<close>

definition npm :: PkgManagerFields where
  "npm = \<lparr> pm_name = ''npm'', installCommand = ''npm install'', runCommand = ''npm run'',
           lockFiles = [''package-lock.json''] \<rparr>"

definition yarn :: PkgManagerFields where
  "yarn = \<lparr> pm_name = ''yarn'', installCommand = ''yarn install'', runCommand = ''yarn run'',
            lockFiles = [''yarn.lock''] \<rparr>"

text \<open>The class \<open>Buck\<close>.\<close>

definition Buck :: BuildSystem where
  "Buck = \<lparr> bs_id = ''buck'', bs_name = ''Buck'', configFiles = [''.buckconfig'', ''BUCK''] \<rparr>"

text \<open>A project just constructed, on a file system where no upward search finds anything.\<close>

definition fresh :: Project where
  "fresh = Project_constructor posix_fs None None"

text \<open>The same on a file system whose upward search rejects.\<close>

definition fresh_broken :: Project where
  "fresh_broken =
     Project_constructor (posix_fs\<lparr>findUp := (\<lambda>names c stopAt. Inl (Error ''findUp''))\<rparr>) None None"

text \<open>Collaborators that all succeed: npm, no workspace, no framework detector.\<close>

definition quiet_env :: Env where
  "quiet_env = \<lparr> detectPackageManager_impl = (\<lambda>p. Inr (Some npm)),
     detectWorkspaces_impl = (\<lambda>p. Inr None),
     buildSystems_registry = [Buck],
     frameworks_registry = [],
     getBuildSettings_impl = (\<lambda>p. Inr []),
     emit_throws = (\<lambda>ev p. None),
     report_throws = (\<lambda>e p. None),
     completes_next = (\<lambda>j k. 0) \<rparr>"

text \<open>
  Collaborators whose detection logic throws in every stage; the build systems fail
  on a file system whose upward search rejects.
\<close>

definition failing_env :: Env where
  "failing_env = quiet_env\<lparr>
     detectPackageManager_impl := (\<lambda>p. Inl (Error ''package manager'')),
     detectWorkspaces_impl := (\<lambda>p. Inl (Error ''workspace'')),
     frameworks_registry := [\<lambda>p pth. Inl (Error ''framework'')],
     getBuildSettings_impl := (\<lambda>p. Inl (Error ''settings'')) \<rparr>"

text \<open>
  A package manager detection whose answer depends on how often it has run: npm on
  the first run, yarn from then on.
\<close>

definition changing_env :: Env where
  "changing_env = quiet_env\<lparr>
     detectPackageManager_impl :=
       (\<lambda>p. if ran p = [StagePackageManager] then Inr (Some npm) else Inr (Some yarn)) \<rparr>"

text \<open>The failing collaborators with a reporter that throws what it is given.\<close>

definition throwing_env :: Env where
  "throwing_env = failing_env\<lparr>report_throws := (\<lambda>e p. Some e)\<rparr>"

text \<open>The fresh project after every stage has run with the succeeding collaborators.\<close>

definition settled :: Project where
  "settled = snd (getBuildSettings quiet_env fresh)"

text \<open>A second build system, and a file system on which only \<open>BUCK\<close> is found.\<close>

definition Lerna :: BuildSystem where
  "Lerna = \<lparr> bs_id = ''lerna'', bs_name = ''Lerna'', configFiles = [''lerna.json''] \<rparr>"

definition buck_project :: Project where
  "buck_project =
     Project_constructor
       (posix_fs\<lparr>findUp := (\<lambda>names c stopAt.
           if ''BUCK'' \<in> set names then Inr (Some ''/BUCK'') else Inr None)\<rparr>) None None"

text \<open>Both registered, the later one settling first.\<close>

definition two_systems_env :: Env where
  "two_systems_env = quiet_env\<lparr>buildSystems_registry := [Lerna, Buck],
      completes_next := (\<lambda>j k. 1)\<rparr>"

text \<open>
  Two framework matches: a static site generator at the highest confidence and a
  generic build tool, category bundler, at the lowest.
\<close>

definition staticSiteGen :: DetectedFramework where
  "staticSiteGen = \<lparr> fw_id = ''staticSiteGen'', fw_name = ''Static site generator'',
                     kind = StaticSiteGenerator, category = ''generator'', confidence = Highest \<rparr>"

definition genericBuildTool :: DetectedFramework where
  "genericBuildTool = \<lparr> fw_id = ''genericBuildTool'', fw_name = ''Generic build tool'',
                        kind = GenericBuildTool, category = ''bundler'', confidence = Lowest \<rparr>"

text \<open>
  A workspace with the members \<open>pkg-a\<close> and \<open>pkg-b\<close>, a framework detector that
  matches in \<open>pkg-a\<close> only, and a scheduler under which the later task settles first.
\<close>

definition two_packages :: WorkspaceInfo where
  "two_packages = \<lparr> rootDir = ''/repo'',
      packages = [\<lparr> path = ''pkg-a'', pkg_name = None \<rparr>, \<lparr> path = ''pkg-b'', pkg_name = None \<rparr>] \<rparr>"

definition workspace_env :: Env where
  "workspace_env = quiet_env\<lparr>
     detectWorkspaces_impl := (\<lambda>p. Inr (Some two_packages)),
     frameworks_registry :=
       [\<lambda>p pth. if pth = Some ''/repo/pkg-a'' then Inr (Some staticSiteGen) else Inr None],
     completes_next := (\<lambda>j k. 1) \<rparr>"

text \<open>
  Collaborators whose first two stages are the resolvers, over the descriptors npm
  and yarn; locating a workspace manifest would throw.
\<close>

definition resolver_env :: Env where
  "resolver_env = quiet_env\<lparr>
     detectPackageManager_impl := packageManagerResolver [npm, yarn],
     detectWorkspaces_impl := workspaceResolver (\<lambda>p. Inl (Error ''locate'')) \<rparr>"

section \<open>The constructor: root and base directory\<close>

lemma root_constructor:
  "root (Project_constructor f b r) =
     (if truthy r \<and> resolve f (cwd f) (or_else r []) \<noteq>
           resolve f (or_else r []) (case b of Some x \<Rightarrow> x | None \<Rightarrow> cwd f)
      then Some (resolve f (cwd f) (or_else r [])) else None)"
  by (simp add: Project_constructor_def Let_def)

lemma baseDirectory_constructor:
  "baseDirectory (Project_constructor f b r) =
     resolve f (or_else r []) (case b of Some x \<Rightarrow> x | None \<Rightarrow> cwd f)"
  by (simp add: Project_constructor_def Let_def)

text \<open>
  C10, as stated, fails: with base directory \<open>/a\<close> and root \<open>/b\<close> the constructor keeps
  the root \<open>/b\<close>, which is no ancestor of the base directory \<open>/a\<close>.
\<close>

theorem constructor_root_not_ancestor:
  "root (Project_constructor posix_fs (Some ''/a'') (Some ''/b'')) = Some ''/b''
   \<and> baseDirectory (Project_constructor posix_fs (Some ''/a'') (Some ''/b'')) = ''/a''
   \<and> \<not> strict_ancestor ''/b'' ''/a''"
  by (simp add: root_constructor baseDirectory_constructor posix_fs_def truthy_def
      or_else_def strict_ancestor_def)

text \<open>
  C10, amended: a resolved root equal to the resolved base directory is unset, so a
  root that is defined after construction differs from the base directory; and the
  base directory is what \<open>fs.resolve\<close> returned, so it is absolute whenever
  \<open>fs.resolve\<close> returns absolute paths only. Nothing is said about ancestry.
\<close>

theorem constructor_root_differs:
  "(truthy r \<and> resolve f (cwd f) (or_else r []) =
       resolve f (or_else r []) (case b of Some x \<Rightarrow> x | None \<Rightarrow> cwd f)
     \<longrightarrow> root (Project_constructor f b r) = None)
   \<and> (\<forall>x. root (Project_constructor f b r) = Some x
        \<longrightarrow> x \<noteq> baseDirectory (Project_constructor f b r))
   \<and> ((\<forall>x y. isAbsolute f (resolve f x y))
        \<longrightarrow> isAbsolute f (baseDirectory (Project_constructor f b r)))"
  by (simp add: root_constructor baseDirectory_constructor)

theorem constructor_root_differs_witness:
  "root (Project_constructor posix_fs (Some ''/a'') (Some ''/a'')) = None
   \<and> root (Project_constructor posix_fs (Some ''/a/pkg'') (Some ''/a'')) = Some ''/a''
   \<and> ''/a'' \<noteq> baseDirectory (Project_constructor posix_fs (Some ''/a/pkg'') (Some ''/a''))
   \<and> isAbsolute posix_fs (baseDirectory (Project_constructor posix_fs (Some ''pkg'') (Some ''/a'')))"
proof -
  have abs: "\<forall>x y. isAbsolute posix_fs (resolve posix_fs x y)"
  proof (intro allI)
    fix x y show "isAbsolute posix_fs (resolve posix_fs x y)"
      by (cases x) (simp_all add: posix_fs_def)
  qed
  have eq: "truthy (Some ''/a'') \<and> resolve posix_fs (cwd posix_fs) (or_else (Some ''/a'') []) =
      resolve posix_fs (or_else (Some ''/a'') []) (case Some ''/a'' of Some x \<Rightarrow> x | None \<Rightarrow> cwd posix_fs)"
    by (simp add: posix_fs_def truthy_def or_else_def)
  have r: "root (Project_constructor posix_fs (Some ''/a/pkg'') (Some ''/a'')) = Some ''/a''"
    by (simp add: root_constructor posix_fs_def truthy_def or_else_def)
  from constructor_root_differs [of "Some ''/a''" posix_fs "Some ''/a''"] eq
  have 1: "root (Project_constructor posix_fs (Some ''/a'') (Some ''/a'')) = None"
    by blast
  from constructor_root_differs [of "Some ''/a''" posix_fs "Some ''/a/pkg''"] r
  have 2: "''/a'' \<noteq> baseDirectory (Project_constructor posix_fs (Some ''/a/pkg'') (Some ''/a''))"
    by blast
  from constructor_root_differs [of "Some ''/a''" posix_fs "Some ''pkg''"] abs
  have 3: "isAbsolute posix_fs (baseDirectory (Project_constructor posix_fs (Some ''pkg'') (Some ''/a'')))"
    by blast
  from 1 r 2 3 show ?thesis by blast
qed

section \<open>Promises settle into their slots\<close>

lemma mset_schedule: "mset (schedule pick k xs) = mset xs"
proof (induction pick k xs rule: schedule.induct)
  case (1 pick k)
  show ?case by simp
next
  case (2 pick k x xs)
  define ps where "ps = x # xs"
  define i where "i = pick k mod length ps"
  have i: "i < length ps"
    unfolding i_def by (rule mod_less_divisor) (simp add: ps_def)
  have split: "ps = take i ps @ ps ! i # drop (Suc i) ps"
    using i by (rule id_take_nth_drop)
  have "mset (schedule pick k ps) = {#ps ! i#} + mset (take i ps @ drop (Suc i) ps)"
    using "2.IH" unfolding ps_def i_def by simp
  also have "\<dots> = mset (take i ps @ ps ! i # drop (Suc i) ps)"
    by simp
  also have "\<dots> = mset ps"
    using split by simp
  finally show ?case unfolding ps_def .
qed

lemma set_schedule: "set (schedule pick k xs) = set xs"
  using mset_schedule [of pick k xs] by (rule mset_eq_setD)

lemma length_schedule: "length (schedule pick k xs) = length xs"
  using mset_schedule [of pick k xs] by (rule mset_eq_length)

lemma distinct_map_schedule:
  "distinct (map f xs) \<Longrightarrow> distinct (map f (schedule pick k xs))"
proof -
  assume d: "distinct (map f xs)"
  have m: "mset (map f (schedule pick k xs)) = mset (map f xs)"
    by (simp add: mset_schedule)
  show ?thesis using mset_eq_imp_distinct_iff [OF m] d by blast
qed

text \<open>Every completion order is the schedule of some scheduler.\<close>

lemma schedule_cong:
  "(\<And>j. k \<le> j \<Longrightarrow> pick j = pick' j) \<Longrightarrow> schedule pick k xs = schedule pick' k xs"
proof (induction pick k xs arbitrary: pick' rule: schedule.induct)
  case (1 pick k)
  show ?case by simp
next
  case (2 pick k x xs)
  have k: "pick k = pick' k" using "2.prems" by simp
  have "schedule pick (Suc k)
          (take (pick k mod length (x # xs)) (x # xs)
             @ drop (Suc (pick k mod length (x # xs))) (x # xs))
      = schedule pick' (Suc k)
          (take (pick k mod length (x # xs)) (x # xs)
             @ drop (Suc (pick k mod length (x # xs))) (x # xs))"
    by (rule "2.IH") (simp add: "2.prems")
  then show ?case using k by simp
qed

lemma schedule_every_order:
  "mset ys = mset xs \<Longrightarrow> \<exists>pick. schedule pick k xs = ys"
proof (induction ys arbitrary: xs k)
  case Nil
  then show ?case by simp
next
  case (Cons y ys)
  from Cons.prems have "y \<in> set xs"
    by (metis list.set_intros(1) mset_eq_setD)
  then obtain i where i: "i < length xs" "xs ! i = y"
    by (auto simp: in_set_conv_nth)
  define xs' where "xs' = take i xs @ drop (Suc i) xs"
  have split: "xs = take i xs @ y # drop (Suc i) xs"
    using i id_take_nth_drop by blast
  have "mset xs = add_mset y (mset xs')"
    by (subst split) (simp add: xs'_def)
  with Cons.prems have "mset ys = mset xs'" by simp
  from Cons.IH [OF this, of "Suc k"] obtain pick' where p': "schedule pick' (Suc k) xs' = ys"
    by blast
  define pick where "pick = pick'(k := i)"
  obtain x0 xs0 where xs: "xs = x0 # xs0"
    using i(1) by (cases xs) auto
  have m: "pick k mod length xs = i"
    using i(1) by (simp add: pick_def)
  have "schedule pick (Suc k) xs' = schedule pick' (Suc k) xs'"
    by (rule schedule_cong) (simp add: pick_def)
  then have "schedule pick k xs = y # ys"
    using p' m i(2) unfolding xs xs'_def by simp
  then show ?case by blast
qed

lemma settle_Inr:
  "\<forall>x\<in>set xs. \<exists>v. snd x = Inr v \<Longrightarrow> distinct (map fst xs) \<Longrightarrow>
   \<exists>slots'. settle xs slots = Inr slots' \<and> length slots' = length slots
     \<and> (\<forall>j<length slots. slots' ! j =
           (case map_of xs j of Some (Inr v) \<Rightarrow> Some v | _ \<Rightarrow> slots ! j))"
proof (induction xs arbitrary: slots)
  case Nil
  then show ?case by simp
next
  case (Cons x xs)
  obtain i v where x: "x = (i, Inr v)"
    using Cons.prems(1) by (cases x) auto
  have notin: "map_of xs i = None"
    using Cons.prems(2) x by (simp add: map_of_eq_None_iff)
  from Cons.IH [of "slots[i := Some v]"] Cons.prems
  obtain slots' where s: "settle xs (slots[i := Some v]) = Inr slots'"
    "length slots' = length slots"
    "\<forall>j<length slots. slots' ! j =
       (case map_of xs j of Some (Inr v') \<Rightarrow> Some v' | _ \<Rightarrow> (slots[i := Some v]) ! j)"
    by auto
  show ?case
  proof (intro exI conjI allI impI)
    show "settle (x # xs) slots = Inr slots'" using s(1) x by simp
    show "length slots' = length slots" by (rule s(2))
  next
    fix j assume j: "j < length slots"
    show "slots' ! j = (case map_of (x # xs) j of Some (Inr v) \<Rightarrow> Some v | _ \<Rightarrow> slots ! j)"
    proof (cases "j = i")
      case True
      then show ?thesis using s(3) j notin x by simp
    next
      case False
      then have "slots[i := Some v] ! j = slots ! j" by simp
      then show ?thesis using s(3) j x False by (simp split: option.splits sum.splits)
    qed
  qed
qed

lemma settle_Inl:
  "\<exists>x\<in>set xs. \<exists>e. snd x = Inl e \<Longrightarrow> \<exists>e. settle xs slots = Inl e \<and> e \<in> {e. \<exists>i. (i, Inl e) \<in> set xs}"
proof (induction xs slots rule: settle.induct)
  case (1 slots)
  then show ?case by simp
next
  case (2 i e rest slots)
  then show ?case by auto
next
  case (3 i v rest slots)
  then show ?case by auto
qed

lemma filter_Boolean_map_Some: "filter_Boolean (map Some xs) = xs"
  by (induction xs) simp_all

lemma filter_Boolean_eq: "filter_Boolean xs = concat (map (\<lambda>x. case x of None \<Rightarrow> [] | Some v \<Rightarrow> [v]) xs)"
  by (induction xs rule: filter_Boolean.induct) simp_all

lemma promise_all_resolved:
  "promise_all pick (map Inr vs) = Inr vs"
proof -
  define xs where "xs = schedule pick 0 (enumerate 0 (map Inr vs :: (error + 'a) list))"
  have set_xs: "set xs = set (enumerate 0 (map Inr vs))"
    unfolding xs_def by (rule set_schedule)
  have dist: "distinct (map fst xs)"
    unfolding xs_def by (rule distinct_map_schedule) simp
  have allr: "\<forall>x\<in>set xs. \<exists>v. snd x = Inr v"
    using set_xs by (auto simp: in_set_enumerate_eq)
  from settle_Inr [OF allr dist, of "replicate (length vs) None"]
  obtain slots' where s: "settle xs (replicate (length vs) None) = Inr slots'"
    "length slots' = length vs"
    "\<forall>j<length vs. slots' ! j =
       (case map_of xs j of Some (Inr v) \<Rightarrow> Some v | _ \<Rightarrow> (replicate (length vs) None) ! j)"
    by auto
  have "slots' = map Some vs"
  proof (rule nth_equalityI)
    show "length slots' = length (map Some vs)" using s(2) by simp
  next
    fix j assume "j < length slots'"
    then have j: "j < length vs" using s(2) by simp
    have "(j, Inr (vs ! j)) \<in> set xs"
      using j set_xs by (simp add: in_set_enumerate_eq)
    then have "map_of xs j = Some (Inr (vs ! j))"
      using dist by simp
    then show "slots' ! j = map Some vs ! j"
      using s(3) j by simp
  qed
  then show ?thesis
    using s(1) by (simp add: promise_all_def xs_def filter_Boolean_map_Some)
qed

lemma promise_all_rejected:
  "Inl e \<in> set rs \<Longrightarrow> \<exists>e'. promise_all pick rs = Inl e' \<and> Inl e' \<in> set rs"
proof -
  assume e: "Inl e \<in> set rs"
  define xs where "xs = schedule pick 0 (enumerate 0 rs)"
  have set_xs: "set xs = set (enumerate 0 rs)"
    unfolding xs_def by (rule set_schedule)
  from e obtain i where "i < length rs" "rs ! i = Inl e"
    by (auto simp: in_set_conv_nth)
  then have "(i, Inl e) \<in> set xs"
    using set_xs by (simp add: in_set_enumerate_eq)
  then have "\<exists>x\<in>set xs. \<exists>e. snd x = Inl e" by force
  from settle_Inl [OF this, of "replicate (length rs) None"]
  obtain e' i' where s: "settle xs (replicate (length rs) None) = Inl e'" "(i', Inl e') \<in> set xs"
    by auto
  from s(2) have "i' < length rs \<and> rs ! i' = Inl e'"
    using set_xs by (simp add: in_set_enumerate_eq)
  then have "Inl e' \<in> set rs"
    by (metis nth_mem)
  then show ?thesis using s(1) by (auto simp: promise_all_def xs_def)
qed

section \<open>Relevance of no match and of one\<close>

lemma filterByRelevance_Nil: "filterByRelevance [] = []"
  by (simp add: filterByRelevance_def ranked_def)

lemma filterByRelevance_single: "filterByRelevance [m] = [m]"
  by (simp add: filterByRelevance_def ranked_def outranked_def overlapped_def top_generator_def
      top_tool_def at_top_def Let_def)

section \<open>What each accessor leaves as it was\<close>

text \<open>
  Each accessor resolves when the reporter does not throw, touches only the results
  of its own stage and of the stages before it, and appends to the logs in pipeline
  order.
\<close>

lemma detectPackageManager_cached:
  "packageManager p = Some pm \<Longrightarrow> detectPackageManager env p = (Inr pm, p)"
  by (simp add: detectPackageManager_def)

lemma detectPackageManager_frame:
  "\<not> isl (fst (detectPackageManager env p))
   \<and> workspace (snd (detectPackageManager env p)) = workspace p
   \<and> buildSystems (snd (detectPackageManager env p)) = buildSystems p
   \<and> frameworks (snd (detectPackageManager env p)) = frameworks p
   \<and> settings (snd (detectPackageManager env p)) = settings p
   \<and> reported (snd (detectPackageManager env p)) = reported p
   \<and> fs (snd (detectPackageManager env p)) = fs p
   \<and> baseDirectory (snd (detectPackageManager env p)) = baseDirectory p
   \<and> root (snd (detectPackageManager env p)) = root p"
  by (simp add: detectPackageManager_def emit_def Let_def split: option.splits sum.splits)

lemma detectPackageManager_chain:
  "packageManager p = None \<Longrightarrow>
     ran (snd (detectPackageManager env p)) = ran p @ [StagePackageManager]
     \<and> emitted (snd (detectPackageManager env p)) = emitted p @
          (case packageManager (snd (detectPackageManager env p)) of
             Some v \<Rightarrow> [Ev_detectPackageManager v] | None \<Rightarrow> [])"
  by (simp add: detectPackageManager_def emit_def Let_def split: option.splits sum.splits)

lemma detectWorkspaces_cached:
  "workspace p = Some w \<Longrightarrow> detectWorkspaces env p = (Inr w, p)"
  by (simp add: detectWorkspaces_def)

lemma detectWorkspaces_frame:
  assumes safe: "\<forall>e q. report_throws env e q = None"
  shows "\<not> isl (fst (detectWorkspaces env p))
   \<and> buildSystems (snd (detectWorkspaces env p)) = buildSystems p
   \<and> frameworks (snd (detectWorkspaces env p)) = frameworks p
   \<and> settings (snd (detectWorkspaces env p)) = settings p
   \<and> fs (snd (detectWorkspaces env p)) = fs p
   \<and> baseDirectory (snd (detectWorkspaces env p)) = baseDirectory p
   \<and> root (snd (detectWorkspaces env p)) = root p"
proof -
  obtain r0 p0 where up: "detectPackageManager env p = (r0, p0)"
    by (cases "detectPackageManager env p")
  from detectPackageManager_frame [of env p]
  have fr: "\<not> isl r0" "buildSystems p0 = buildSystems p" "frameworks p0 = frameworks p"
    "settings p0 = settings p" "fs p0 = fs p" "baseDirectory p0 = baseDirectory p"
    "root p0 = root p"
    by (simp_all add: up)
  then obtain v0 where r0: "r0 = Inr v0" by (cases r0) auto
  show ?thesis
    using fr safe
    by (simp add: detectWorkspaces_def up r0 catch_report_def report_def emit_def Let_def
        split: option.splits sum.splits)
qed

lemma detectWorkspaces_chain:
  assumes safe: "\<forall>e q. report_throws env e q = None"
    and unset: "packageManager p = None" "workspace p = None"
  shows "ran (snd (detectWorkspaces env p)) = ran p @ [StagePackageManager, StageWorkspace]
     \<and> emitted (snd (detectWorkspaces env p)) = emitted p @
          (case packageManager (snd (detectWorkspaces env p)) of
             Some v \<Rightarrow> [Ev_detectPackageManager v] | None \<Rightarrow> [])
          @ (case workspace (snd (detectWorkspaces env p)) of
             Some v \<Rightarrow> [Ev_detectWorkspaces v] | None \<Rightarrow> [])"
proof -
  obtain r0 p0 where up: "detectPackageManager env p = (r0, p0)"
    by (cases "detectPackageManager env p")
  from detectPackageManager_frame [of env p]
  have fr: "\<not> isl r0" "workspace p0 = workspace p"
    by (simp_all add: up)
  then obtain v0 where r0: "r0 = Inr v0" by (cases r0) auto
  from detectPackageManager_chain [OF unset(1), of env]
  have ch: "ran p0 = ran p @ [StagePackageManager]"
    "emitted p0 = emitted p @
       (case packageManager p0 of Some v \<Rightarrow> [Ev_detectPackageManager v] | None \<Rightarrow> [])"
    by (simp_all add: up)
  show ?thesis
    using fr ch safe unset
    by (simp add: detectWorkspaces_def up r0 catch_report_def report_def emit_def Let_def
        split: option.splits sum.splits)
qed

lemma detectBuildSystem_cached:
  "buildSystems p = Some bs \<Longrightarrow> detectBuildSystem env p = (Inr bs, p)"
  by (simp add: detectBuildSystem_def)

lemma detectBuildSystem_frame:
  assumes safe: "\<forall>e q. report_throws env e q = None"
  shows "\<not> isl (fst (detectBuildSystem env p))
   \<and> frameworks (snd (detectBuildSystem env p)) = frameworks p
   \<and> settings (snd (detectBuildSystem env p)) = settings p
   \<and> fs (snd (detectBuildSystem env p)) = fs p
   \<and> baseDirectory (snd (detectBuildSystem env p)) = baseDirectory p
   \<and> root (snd (detectBuildSystem env p)) = root p"
proof -
  obtain r0 p0 where up: "detectWorkspaces env p = (r0, p0)"
    by (cases "detectWorkspaces env p")
  from detectWorkspaces_frame [OF safe, of p]
  have fr: "\<not> isl r0" "frameworks p0 = frameworks p"
    "settings p0 = settings p" "fs p0 = fs p" "baseDirectory p0 = baseDirectory p"
    "root p0 = root p"
    by (simp_all add: up)
  then obtain v0 where r0: "r0 = Inr v0" by (cases r0) auto
  show ?thesis
    using fr safe
    by (simp add: detectBuildSystem_def up r0 catch_report_def report_def emit_def Let_def
        split: option.splits sum.splits)
qed

lemma detectBuildSystem_chain:
  assumes safe: "\<forall>e q. report_throws env e q = None"
    and unset: "packageManager p = None" "workspace p = None" "buildSystems p = None"
  shows "ran (snd (detectBuildSystem env p)) =
           ran p @ [StagePackageManager, StageWorkspace, StageBuildSystems]
     \<and> emitted (snd (detectBuildSystem env p)) = emitted p @
          (case packageManager (snd (detectBuildSystem env p)) of
             Some v \<Rightarrow> [Ev_detectPackageManager v] | None \<Rightarrow> [])
          @ (case workspace (snd (detectBuildSystem env p)) of
             Some v \<Rightarrow> [Ev_detectWorkspaces v] | None \<Rightarrow> [])
          @ (case buildSystems (snd (detectBuildSystem env p)) of
             Some v \<Rightarrow> [Ev_detectBuildsystems v] | None \<Rightarrow> [])"
proof -
  obtain r0 p0 where up: "detectWorkspaces env p = (r0, p0)"
    by (cases "detectWorkspaces env p")
  from detectWorkspaces_frame [OF safe, of p]
  have fr: "\<not> isl r0" "buildSystems p0 = buildSystems p"
    by (simp_all add: up)
  then obtain v0 where r0: "r0 = Inr v0" by (cases r0) auto
  from detectWorkspaces_chain [OF safe unset(1,2)]
  have ch: "ran p0 = ran p @ [StagePackageManager, StageWorkspace]"
    "emitted p0 = emitted p @
       (case packageManager p0 of Some v \<Rightarrow> [Ev_detectPackageManager v] | None \<Rightarrow> [])
       @ (case workspace p0 of Some v \<Rightarrow> [Ev_detectWorkspaces v] | None \<Rightarrow> [])"
    by (simp_all add: up)
  show ?thesis
    using fr ch safe unset
    by (simp add: detectBuildSystem_def up r0 catch_report_def report_def emit_def Let_def
        split: option.splits sum.splits)
qed

lemma detectFrameworks_cached:
  "frameworks p = Some m \<Longrightarrow> detectFrameworks env p = (Inr (Some (flat_values m)), p)"
  by (simp add: detectFrameworks_def)

lemma detectFrameworks_frame:
  assumes safe: "\<forall>e q. report_throws env e q = None"
  shows "\<not> isl (fst (detectFrameworks env p))
   \<and> settings (snd (detectFrameworks env p)) = settings p
   \<and> fs (snd (detectFrameworks env p)) = fs p
   \<and> baseDirectory (snd (detectFrameworks env p)) = baseDirectory p
   \<and> root (snd (detectFrameworks env p)) = root p"
proof -
  obtain r0 p0 where up: "detectBuildSystem env p = (r0, p0)"
    by (cases "detectBuildSystem env p")
  from detectBuildSystem_frame [OF safe, of p]
  have fr: "\<not> isl r0"
    "settings p0 = settings p" "fs p0 = fs p" "baseDirectory p0 = baseDirectory p"
    "root p0 = root p"
    by (simp_all add: up)
  then obtain v0 where r0: "r0 = Inr v0" by (cases r0) auto
  show ?thesis
    using fr safe
    by (simp add: detectFrameworks_def detectFrameworks_start_def up r0 catch_report_def
        report_def emit_def Let_def split: option.splits sum.splits)
qed

lemma detectFrameworks_stored:
  assumes safe: "\<forall>e q. report_throws env e q = None"
    and unset: "frameworks p = None"
  shows "frameworks (snd (detectFrameworks env p)) =
           Some (case workspace (snd (detectBuildSystem env p)) of
                   Some (Some w) \<Rightarrow>
                     detectFrameworks_packages env
                       (detectFrameworks_start (snd (detectBuildSystem env p))) w
                 | _ \<Rightarrow> [([], detectFrameworksInPath env
                            (detectFrameworks_start (snd (detectBuildSystem env p))) None)])
     \<and> workspace (snd (detectFrameworks env p)) = workspace (snd (detectBuildSystem env p))
     \<and> packageManager (snd (detectFrameworks env p)) = packageManager (snd (detectBuildSystem env p))
     \<and> buildSystems (snd (detectFrameworks env p)) = buildSystems (snd (detectBuildSystem env p))
     \<and> ran (snd (detectFrameworks env p)) = ran (snd (detectBuildSystem env p)) @ [StageFrameworks]
     \<and> emitted (snd (detectFrameworks env p)) = emitted (snd (detectBuildSystem env p)) @
          (case frameworks (snd (detectFrameworks env p)) of
             Some v \<Rightarrow> [Ev_detectFrameworks v] | None \<Rightarrow> [])"
proof -
  obtain r0 p0 where up: "detectBuildSystem env p = (r0, p0)"
    by (cases "detectBuildSystem env p")
  from detectBuildSystem_frame [OF safe, of p]
  have fr: "\<not> isl r0" 
    by (simp_all add: up)
  then obtain v0 where r0: "r0 = Inr v0" by (cases r0) auto
  show ?thesis
    using safe unset
    by (simp add: detectFrameworks_def detectFrameworks_start_def up r0 catch_report_def
        report_def emit_def Let_def split: option.splits sum.splits)
qed

lemma getBuildSettings_cached:
  "settings p = Some s \<Longrightarrow> getBuildSettings env p = (Inr s, p)"
  by (simp add: getBuildSettings_def)

lemma getBuildSettings_frame:
  assumes safe: "\<forall>e q. report_throws env e q = None"
  shows "\<not> isl (fst (getBuildSettings env p))"
proof -
  obtain r0 p0 where up: "detectFrameworks env (p\<lparr>settings := Some []\<rparr>) = (r0, p0)"
    by (cases "detectFrameworks env (p\<lparr>settings := Some []\<rparr>)")
  from detectFrameworks_frame [OF safe, of "p\<lparr>settings := Some []\<rparr>"]
  have fr: "\<not> isl r0"
    by (simp_all add: up)
  then obtain v0 where r0: "r0 = Inr v0" by (cases r0) auto
  show ?thesis
    using safe
    by (simp add: getBuildSettings_def up r0 catch_report_settings_def
        report_def emit_def Let_def split: option.splits sum.splits)
qed

lemma detectPackageManager_stored:
  "packageManager p = None \<Longrightarrow> \<forall>q. \<not> isl (detectPackageManager_impl env q) \<Longrightarrow>
     packageManager (snd (detectPackageManager env p)) \<noteq> None"
proof -
  assume u: "packageManager p = None" and ok: "\<forall>q. \<not> isl (detectPackageManager_impl env q)"
  from ok have "\<not> isl (detectPackageManager_impl env (p\<lparr>ran := ran p @ [StagePackageManager]\<rparr>))"
    by blast
  then obtain v where "detectPackageManager_impl env (p\<lparr>ran := ran p @ [StagePackageManager]\<rparr>) = Inr v"
    by (cases "detectPackageManager_impl env (p\<lparr>ran := ran p @ [StagePackageManager]\<rparr>)") auto
  then show ?thesis using u
    by (simp add: detectPackageManager_def emit_def Let_def split: option.splits)
qed

lemma detectWorkspaces_stored:
  assumes safe: "\<forall>e q. report_throws env e q = None"
    and unset: "workspace p = None"
  shows "packageManager (snd (detectWorkspaces env p)) = packageManager (snd (detectPackageManager env p))
     \<and> ((\<forall>q. \<not> isl (detectWorkspaces_impl env q)) \<longrightarrow> workspace (snd (detectWorkspaces env p)) \<noteq> None)"
proof -
  obtain r0 p0 where up: "detectPackageManager env p = (r0, p0)"
    by (cases "detectPackageManager env p")
  from detectPackageManager_frame [of env p]
  have fr: "\<not> isl r0" by (simp_all add: up)
  then obtain v0 where r0: "r0 = Inr v0" by (cases r0) auto
  have "\<exists>v. detectWorkspaces_impl env (p0\<lparr>ran := ran p0 @ [StageWorkspace]\<rparr>) = Inr v"
    if "\<forall>q. \<not> isl (detectWorkspaces_impl env q)"
  proof -
    from that have "\<not> isl (detectWorkspaces_impl env (p0\<lparr>ran := ran p0 @ [StageWorkspace]\<rparr>))"
      by blast
    then show ?thesis
      by (cases "detectWorkspaces_impl env (p0\<lparr>ran := ran p0 @ [StageWorkspace]\<rparr>)") auto
  qed
  then show ?thesis
    using safe unset
    by (auto simp add: detectWorkspaces_def up r0 catch_report_def report_def emit_def Let_def
        split: option.splits sum.splits)
qed

section \<open>Build systems\<close>

lemma filter_Boolean_if:
  "filter_Boolean (map (\<lambda>b. if P b then Some b else None) xs) = filter P xs"
  by (induction xs) simp_all

lemma BuildSystem_detect_found:
  "\<not> isl (findUp (fs p) (configFiles b) (baseDirectory p) (root p)) \<Longrightarrow>
     BuildSystem_detect p b = Inr (if marker_found p b then Some b else None)"
  by (cases "findUp (fs p) (configFiles b) (baseDirectory p) (root p)")
     (simp_all add: BuildSystem_detect_def marker_found_def)

lemma detectBuildSystem_all_found:
  assumes "\<forall>b\<in>set (buildSystems_registry env).
             \<not> isl (findUp (fs p) (configFiles b) (baseDirectory p) (root p))"
  shows "detectBuildSystem_all env p = Inr (filter (marker_found p) (buildSystems_registry env))"
proof -
  have eq: "map (BuildSystem_detect p) (buildSystems_registry env) =
        map Inr (map (\<lambda>b. if marker_found p b then Some b else None) (buildSystems_registry env))"
    using assms by (simp add: BuildSystem_detect_found)
  show ?thesis
    unfolding detectBuildSystem_all_def eq promise_all_resolved
    by (simp add: filter_Boolean_if)
qed

lemma detectBuildSystem_all_site:
  "fs q = fs p \<Longrightarrow> baseDirectory q = baseDirectory p \<Longrightarrow> root q = root p \<Longrightarrow>
     detectBuildSystem_all env q = detectBuildSystem_all env p"
proof -
  assume "fs q = fs p" "baseDirectory q = baseDirectory p" "root q = root p"
  then have "BuildSystem_detect q = BuildSystem_detect p"
    by (intro ext) (simp add: BuildSystem_detect_def)
  then show ?thesis
    by (simp add: detectBuildSystem_all_def)
qed

lemma detectBuildSystem_stored:
  assumes safe: "\<forall>e q. report_throws env e q = None"
    and unset: "buildSystems p = None"
  shows "packageManager (snd (detectBuildSystem env p)) = packageManager (snd (detectWorkspaces env p))
     \<and> workspace (snd (detectBuildSystem env p)) = workspace (snd (detectWorkspaces env p))
     \<and> (\<forall>bs. detectBuildSystem_all env p = Inr bs \<longrightarrow>
           buildSystems (snd (detectBuildSystem env p)) = Some bs)"
proof -
  obtain r0 p0 where up: "detectWorkspaces env p = (r0, p0)"
    by (cases "detectWorkspaces env p")
  from detectWorkspaces_frame [OF safe, of p]
  have fr: "\<not> isl r0" "fs p0 = fs p" "baseDirectory p0 = baseDirectory p" "root p0 = root p"
    by (simp_all add: up)
  then obtain v0 where r0: "r0 = Inr v0" by (cases r0) auto
  have "detectBuildSystem_all env (p0\<lparr>ran := ran p0 @ [StageBuildSystems]\<rparr>) =
        detectBuildSystem_all env p"
    by (rule detectBuildSystem_all_site) (simp_all add: fr)
  then show ?thesis
    using safe unset
    by (auto simp add: detectBuildSystem_def up r0 catch_report_def report_def emit_def Let_def
        split: option.splits sum.splits)
qed

section \<open>Dependency order\<close>

text \<open>
  C3: on a project where no stage up to frameworks has stored a result, a call of
  \<open>detectFrameworks\<close> starts the detection logic of package manager, workspace,
  build systems and frameworks, in that order and each once; the events it emits
  are the stage-completed events of the stages that stored a result, in the same
  order, each carrying the stored result; and when no detection throws these are
  all four.
\<close>

theorem detectFrameworks_triggers_in_order:
  assumes safe: "\<forall>e q. report_throws env e q = None"
    and unset: "packageManager p = None" "workspace p = None" "buildSystems p = None"
      "frameworks p = None"
  shows "ran (snd (detectFrameworks env p)) =
           ran p @ [StagePackageManager, StageWorkspace, StageBuildSystems, StageFrameworks]
     \<and> emitted (snd (detectFrameworks env p)) = emitted p @ stage_events (snd (detectFrameworks env p))
     \<and> ((\<forall>q. \<not> isl (detectPackageManager_impl env q)) \<and> (\<forall>q. \<not> isl (detectWorkspaces_impl env q))
          \<and> \<not> isl (detectBuildSystem_all env p)
         \<longrightarrow> (\<exists>pm w bs m. stage_events (snd (detectFrameworks env p)) =
               [Ev_detectPackageManager pm, Ev_detectWorkspaces w,
                Ev_detectBuildsystems bs, Ev_detectFrameworks m]))"
proof -
  note st = detectFrameworks_stored [OF safe unset(4)]
  note ch = detectBuildSystem_chain [OF safe unset(1,2,3)]
  have ran: "ran (snd (detectFrameworks env p)) =
           ran p @ [StagePackageManager, StageWorkspace, StageBuildSystems, StageFrameworks]"
    using st ch by simp
  have em: "emitted (snd (detectFrameworks env p)) = emitted p @ stage_events (snd (detectFrameworks env p))"
    using st ch by (simp add: stage_events_def)
  have all: "\<exists>pm w bs m. stage_events (snd (detectFrameworks env p)) =
               [Ev_detectPackageManager pm, Ev_detectWorkspaces w,
                Ev_detectBuildsystems bs, Ev_detectFrameworks m]"
    if ok: "\<forall>q. \<not> isl (detectPackageManager_impl env q)" "\<forall>q. \<not> isl (detectWorkspaces_impl env q)"
      "\<not> isl (detectBuildSystem_all env p)"
  proof -
    from ok(3) obtain bs0 where bs0: "detectBuildSystem_all env p = Inr bs0"
      by (cases "detectBuildSystem_all env p") auto
    have 1: "packageManager (snd (detectFrameworks env p)) \<noteq> None"
      using st detectBuildSystem_stored [OF safe unset(3)] detectWorkspaces_stored [OF safe unset(2)]
        detectPackageManager_stored [OF unset(1) ok(1)]
      by simp
    have 2: "workspace (snd (detectFrameworks env p)) \<noteq> None"
      using st detectBuildSystem_stored [OF safe unset(3)] detectWorkspaces_stored [OF safe unset(2)] ok(2)
      by simp
    have 3: "buildSystems (snd (detectFrameworks env p)) \<noteq> None"
      using st detectBuildSystem_stored [OF safe unset(3)] bs0
      by simp
    have 4: "frameworks (snd (detectFrameworks env p)) \<noteq> None"
      using st by simp
    from 1 2 3 4 show ?thesis
      by (auto simp: stage_events_def)
  qed
  from ran em all show ?thesis by blast
qed

text \<open>The projects and collaborators of the evaluations, field by field.\<close>

lemma quiet_env_simps:
  "detectPackageManager_impl quiet_env = (\<lambda>p. Inr (Some npm))"
  "detectWorkspaces_impl quiet_env = (\<lambda>p. Inr None)"
  "buildSystems_registry quiet_env = [Buck]"
  "frameworks_registry quiet_env = []"
  "getBuildSettings_impl quiet_env = (\<lambda>p. Inr [])"
  "emit_throws quiet_env = (\<lambda>ev p. None)"
  "report_throws quiet_env = (\<lambda>e p. None)"
  "completes_next quiet_env = (\<lambda>j k. 0)"
  by (simp_all add: quiet_env_def)

lemma fresh_simps:
  "packageManager fresh = None" "workspace fresh = None"
  "buildSystems fresh = None" "frameworks fresh = None"
  "settings fresh = None" "ran fresh = []" "reported fresh = []"
  "emitted fresh = []" "root fresh = None" "baseDirectory fresh = ''/''"
  "findUp (fs fresh) = (\<lambda>names c stopAt. Inr None)"
  by (simp_all add: fresh_def Project_constructor_def Let_def posix_fs_def or_else_def truthy_def)

lemma quiet_BuildSystem_all: "detectBuildSystem_all quiet_env q = 
   (case BuildSystem_detect q Buck of Inl e \<Rightarrow> Inl e | Inr (Some b) \<Rightarrow> Inr [b] | Inr None \<Rightarrow> Inr [])"
  by (simp add: detectBuildSystem_all_def quiet_env_simps promise_all_def enumerate_eq_zip split: sum.splits option.splits)

theorem detectFrameworks_triggers_in_order_witness:
  "ran (snd (detectFrameworks quiet_env fresh)) =
      [StagePackageManager, StageWorkspace, StageBuildSystems, StageFrameworks]
   \<and> emitted (snd (detectFrameworks quiet_env fresh)) =
      [Ev_detectPackageManager (Some npm), Ev_detectWorkspaces None,
       Ev_detectBuildsystems [], Ev_detectFrameworks [([], [])]]"
proof -
  have safe: "\<forall>e q. report_throws quiet_env e q = None"
    by (simp add: quiet_env_simps)
  have ok: "(\<forall>q. \<not> isl (detectPackageManager_impl quiet_env q)) \<and> (\<forall>q. \<not> isl (detectWorkspaces_impl quiet_env q))
          \<and> \<not> isl (detectBuildSystem_all quiet_env fresh)"
    by (simp add: quiet_env_simps quiet_BuildSystem_all BuildSystem_detect_def fresh_simps)
  have ev: "stage_events (snd (detectFrameworks quiet_env fresh)) = 
      [Ev_detectPackageManager (Some npm), Ev_detectWorkspaces None,
       Ev_detectBuildsystems [], Ev_detectFrameworks [([], [])]]"
    by (simp add: stage_events_def detectFrameworks_def detectBuildSystem_def detectWorkspaces_def
        detectPackageManager_def fresh_simps quiet_env_simps emit_def quiet_BuildSystem_all
        BuildSystem_detect_def truthy_def detectFrameworks_start_def detectFrameworksInPath_def
        promise_all_def filterByRelevance_Nil Let_def)
  from detectFrameworks_triggers_in_order [OF safe fresh_simps(1,2,3,4)] ok ev
  show ?thesis by (simp add: fresh_simps)
qed

section \<open>No accessor rejects\<close>

text \<open>
  C7: when the reporter does not throw (so that every failure of a collaborator is
  raised inside a stage's detection logic or by a listener), each of the five
  accessors resolves to a value on every project, whatever the detection logic
  does.
\<close>

theorem accessors_never_reject:
  assumes safe: "\<forall>e q. report_throws env e q = None"
  shows "(\<exists>v. fst (detectPackageManager env p) = Inr v)
     \<and> (\<exists>v. fst (detectWorkspaces env p) = Inr v)
     \<and> (\<exists>v. fst (detectBuildSystem env p) = Inr v)
     \<and> (\<exists>v. fst (detectFrameworks env p) = Inr v)
     \<and> (\<exists>v. fst (getBuildSettings env p) = Inr v)"
proof -
  have r: "\<not> isl x \<Longrightarrow> \<exists>v. x = Inr v" for x :: "error + 'a"
    by (cases x) simp_all
  show ?thesis
    using detectPackageManager_frame [of env p] detectWorkspaces_frame [OF safe, of p]
      detectBuildSystem_frame [OF safe, of p] detectFrameworks_frame [OF safe, of p]
      getBuildSettings_frame [OF safe, of p]
    by (simp add: r)
qed

lemma failing_env_simps:
  "detectPackageManager_impl failing_env = (\<lambda>p. Inl (Error ''package manager''))"
  "detectWorkspaces_impl failing_env = (\<lambda>p. Inl (Error ''workspace''))"
  "buildSystems_registry failing_env = [Buck]"
  "frameworks_registry failing_env = [\<lambda>p pth. Inl (Error ''framework'')]"
  "getBuildSettings_impl failing_env = (\<lambda>p. Inl (Error ''settings''))"
  "emit_throws failing_env = (\<lambda>ev p. None)"
  "report_throws failing_env = (\<lambda>e p. None)"
  "completes_next failing_env = (\<lambda>j k. 0)"
  by (simp_all add: failing_env_def quiet_env_def)

lemma fresh_broken_simps:
  "packageManager fresh_broken = None" "workspace fresh_broken = None"
  "buildSystems fresh_broken = None" "frameworks fresh_broken = None"
  "settings fresh_broken = None" "ran fresh_broken = []" "reported fresh_broken = []"
  "emitted fresh_broken = []" "root fresh_broken = None" "baseDirectory fresh_broken = ''/''"
  "findUp (fs fresh_broken) = (\<lambda>names c stopAt. Inl (Error ''findUp''))"
  by (simp_all add: fresh_broken_def Project_constructor_def Let_def posix_fs_def or_else_def truthy_def)

theorem accessors_never_reject_witness:
  "(\<forall>e q. report_throws failing_env e q = None)
   \<and> (\<exists>v. fst (detectPackageManager failing_env fresh_broken) = Inr v)
   \<and> (\<exists>v. fst (detectWorkspaces failing_env fresh_broken) = Inr v)
   \<and> (\<exists>v. fst (detectBuildSystem failing_env fresh_broken) = Inr v)
   \<and> (\<exists>v. fst (detectFrameworks failing_env fresh_broken) = Inr v)
   \<and> (\<exists>v. fst (getBuildSettings failing_env fresh_broken) = Inr v)"
proof -
  have safe: "\<forall>e q. report_throws failing_env e q = None"
    by (simp add: failing_env_simps)
  from safe accessors_never_reject [OF safe, of fresh_broken] show ?thesis
    by blast
qed

text \<open>The hypothesis is needed: with a reporter that throws, an accessor rejects.\<close>

lemma reporter_throws_rejects:
  "fst (detectWorkspaces throwing_env fresh) = Inl (Error ''workspace'')"
  by (simp add: detectWorkspaces_def detectPackageManager_def throwing_env_def failing_env_simps
      fresh_simps catch_report_def report_def)

section \<open>Memoization\<close>

text \<open>
  C1, as stated, fails: when package manager detection throws, the accessor stores
  nothing, and the next call runs the detection logic a second time.
\<close>

theorem failed_detection_runs_again:
  "packageManager (snd (detectPackageManager failing_env fresh)) = None
   \<and> ran (snd (detectPackageManager failing_env (snd (detectPackageManager failing_env fresh))))
       = [StagePackageManager, StagePackageManager]"
  by (simp add: detectPackageManager_def failing_env_simps fresh_simps)

lemma settled_simps:
  "packageManager settled = Some (Some npm)" "workspace settled = Some None"
  "buildSystems settled = Some []" "frameworks settled = Some [([], [])]"
  "settings settled = Some []"
  "ran settled = [StagePackageManager, StageWorkspace, StageBuildSystems, StageFrameworks, StageSettings]"
  by (simp_all add: settled_def getBuildSettings_def detectFrameworks_def detectBuildSystem_def
        detectWorkspaces_def detectPackageManager_def fresh_simps quiet_env_simps emit_def
        quiet_BuildSystem_all BuildSystem_detect_def truthy_def detectFrameworks_start_def
        detectFrameworksInPath_def promise_all_def filterByRelevance_Nil Let_def this_settings_def)

text \<open>How often a stage's detection logic has run, and what a first run stores.\<close>

lemma detectPackageManager_other_stage:
  "S \<noteq> StagePackageManager \<Longrightarrow>
     count_list (ran (snd (detectPackageManager env p))) S = count_list (ran p) S"
  by (simp add: detectPackageManager_def emit_def Let_def split: option.splits sum.splits)

lemma detectWorkspaces_ran:
  assumes safe: "\<forall>e q. report_throws env e q = None" and unset: "workspace p = None"
  shows "ran (snd (detectWorkspaces env p)) =
           ran (snd (detectPackageManager env p)) @ [StageWorkspace]"
proof -
  obtain r0 p0 where up: "detectPackageManager env p = (r0, p0)"
    by (cases "detectPackageManager env p")
  from detectPackageManager_frame [of env p] have "\<not> isl r0" by (simp add: up)
  then obtain v0 where r0: "r0 = Inr v0" by (cases r0) auto
  show ?thesis
    using safe unset
    by (simp add: detectWorkspaces_def up r0 catch_report_def report_def emit_def Let_def
        split: option.splits sum.splits)
qed

lemma detectWorkspaces_other_stage:
  assumes safe: "\<forall>e q. report_throws env e q = None"
    and other: "S \<noteq> StagePackageManager" "S \<noteq> StageWorkspace"
  shows "count_list (ran (snd (detectWorkspaces env p))) S = count_list (ran p) S"
proof (cases "workspace p")
  case None
  then show ?thesis
    using detectWorkspaces_ran [OF safe None] detectPackageManager_other_stage [OF other(1), of env p] other
    by simp
next
  case (Some w)
  then show ?thesis by (simp add: detectWorkspaces_cached)
qed

lemma detectBuildSystem_ran:
  assumes safe: "\<forall>e q. report_throws env e q = None" and unset: "buildSystems p = None"
  shows "ran (snd (detectBuildSystem env p)) =
           ran (snd (detectWorkspaces env p)) @ [StageBuildSystems]"
proof -
  obtain r0 p0 where up: "detectWorkspaces env p = (r0, p0)"
    by (cases "detectWorkspaces env p")
  from detectWorkspaces_frame [OF safe, of p] have "\<not> isl r0" by (simp add: up)
  then obtain v0 where r0: "r0 = Inr v0" by (cases r0) auto
  show ?thesis
    using safe unset
    by (simp add: detectBuildSystem_def up r0 catch_report_def report_def emit_def Let_def
        split: option.splits sum.splits)
qed

lemma detectBuildSystem_other_stage:
  assumes safe: "\<forall>e q. report_throws env e q = None"
    and other: "S \<noteq> StagePackageManager" "S \<noteq> StageWorkspace" "S \<noteq> StageBuildSystems"
  shows "count_list (ran (snd (detectBuildSystem env p))) S = count_list (ran p) S"
proof (cases "buildSystems p")
  case None
  then show ?thesis
    using detectBuildSystem_ran [OF safe None] detectWorkspaces_other_stage [OF safe other(1,2), of p] other
    by simp
next
  case (Some bs)
  then show ?thesis by (simp add: detectBuildSystem_cached)
qed

lemma detectFrameworks_other_stage:
  assumes safe: "\<forall>e q. report_throws env e q = None"
    and other: "S \<noteq> StagePackageManager" "S \<noteq> StageWorkspace" "S \<noteq> StageBuildSystems"
      "S \<noteq> StageFrameworks"
  shows "count_list (ran (snd (detectFrameworks env p))) S = count_list (ran p) S"
proof (cases "frameworks p")
  case None
  then show ?thesis
    using detectFrameworks_stored [OF safe None] detectBuildSystem_other_stage [OF safe other(1,2,3), of p] other
    by simp
next
  case (Some m)
  then show ?thesis by (simp add: detectFrameworks_cached)
qed

lemma detectWorkspaces_success:
  assumes safe: "\<forall>e q. report_throws env e q = None" and unset: "workspace p = None"
    and ok: "detectWorkspaces_impl env
               ((snd (detectPackageManager env p))
                  \<lparr>ran := ran (snd (detectPackageManager env p)) @ [StageWorkspace]\<rparr>) = Inr w"
  shows "workspace (snd (detectWorkspaces env p)) = Some w
     \<and> ((\<forall>ev q. emit_throws env ev q = None) \<longrightarrow> fst (detectWorkspaces env p) = Inr w)"
proof -
  obtain r0 p0 where up: "detectPackageManager env p = (r0, p0)"
    by (cases "detectPackageManager env p")
  from detectPackageManager_frame [of env p] have "\<not> isl r0" by (simp add: up)
  then obtain v0 where r0: "r0 = Inr v0" by (cases r0) auto
  show ?thesis
    using safe unset ok
    by (simp add: detectWorkspaces_def up r0 catch_report_def report_def emit_def Let_def
        split: option.splits)
qed

lemma detectBuildSystem_success:
  assumes safe: "\<forall>e q. report_throws env e q = None" and unset: "buildSystems p = None"
    and ok: "detectBuildSystem_all env p = Inr bs"
  shows "buildSystems (snd (detectBuildSystem env p)) = Some bs
     \<and> ((\<forall>ev q. emit_throws env ev q = None) \<longrightarrow> fst (detectBuildSystem env p) = Inr bs)"
proof -
  obtain r0 p0 where up: "detectWorkspaces env p = (r0, p0)"
    by (cases "detectWorkspaces env p")
  from detectWorkspaces_frame [OF safe, of p]
  have fr: "\<not> isl r0" "fs p0 = fs p" "baseDirectory p0 = baseDirectory p" "root p0 = root p"
    by (simp_all add: up)
  then obtain v0 where r0: "r0 = Inr v0" by (cases r0) auto
  have "detectBuildSystem_all env (p0\<lparr>ran := ran p0 @ [StageBuildSystems]\<rparr>) = Inr bs"
    using ok detectBuildSystem_all_site [of "p0\<lparr>ran := ran p0 @ [StageBuildSystems]\<rparr>" p env]
    by (simp add: fr)
  then show ?thesis
    using safe unset
    by (simp add: detectBuildSystem_def up r0 catch_report_def report_def emit_def Let_def
        split: option.splits)
qed

lemma detectFrameworks_success:
  assumes safe: "\<forall>e q. report_throws env e q = None" and unset: "frameworks p = None"
  shows "\<exists>m. frameworks (snd (detectFrameworks env p)) = Some m
     \<and> ((\<forall>ev q. emit_throws env ev q = None) \<longrightarrow>
           fst (detectFrameworks env p) = Inr (Some (flat_values m)))"
proof -
  obtain r0 p0 where up: "detectBuildSystem env p = (r0, p0)"
    by (cases "detectBuildSystem env p")
  from detectBuildSystem_frame [OF safe, of p] have "\<not> isl r0" by (simp add: up)
  then obtain v0 where r0: "r0 = Inr v0" by (cases r0) auto
  show ?thesis
    using safe unset
    by (simp add: detectFrameworks_def up r0 catch_report_def report_def emit_def Let_def
        split: option.splits)
qed

lemma getBuildSettings_success:
  assumes safe: "\<forall>e q. report_throws env e q = None" and unset: "settings p = None"
  shows "\<exists>s. settings (snd (getBuildSettings env p)) = Some s
           \<and> fst (getBuildSettings env p) = Inr s
           \<and> (\<forall>s'. getBuildSettings_impl env
                  ((snd (detectFrameworks env (p\<lparr>settings := Some []\<rparr>)))
                     \<lparr>ran := ran (snd (detectFrameworks env (p\<lparr>settings := Some []\<rparr>)))
                              @ [StageSettings]\<rparr>) = Inr s' \<longrightarrow> s = s')"
    and "ran (snd (getBuildSettings env p)) =
           ran (snd (detectFrameworks env (p\<lparr>settings := Some []\<rparr>))) @ [StageSettings]"
proof -
  obtain r0 p0 where up: "detectFrameworks env (p\<lparr>settings := Some []\<rparr>) = (r0, p0)"
    by (cases "detectFrameworks env (p\<lparr>settings := Some []\<rparr>)")
  from detectFrameworks_frame [OF safe, of "p\<lparr>settings := Some []\<rparr>"]
  have fr: "\<not> isl r0" "settings p0 = Some []" by (simp_all add: up)
  then obtain v0 where r0: "r0 = Inr v0" by (cases r0) auto
  show "\<exists>s. settings (snd (getBuildSettings env p)) = Some s
           \<and> fst (getBuildSettings env p) = Inr s
           \<and> (\<forall>s'. getBuildSettings_impl env
                  ((snd (detectFrameworks env (p\<lparr>settings := Some []\<rparr>)))
                     \<lparr>ran := ran (snd (detectFrameworks env (p\<lparr>settings := Some []\<rparr>)))
                              @ [StageSettings]\<rparr>) = Inr s' \<longrightarrow> s = s')"
    using safe unset fr
    by (simp add: getBuildSettings_def up r0 catch_report_settings_def report_def emit_def Let_def
        this_settings_def split: option.splits sum.splits)
  show "ran (snd (getBuildSettings env p)) =
           ran (snd (detectFrameworks env (p\<lparr>settings := Some []\<rparr>))) @ [StageSettings]"
    using safe unset fr
    by (simp add: getBuildSettings_def up r0 catch_report_settings_def report_def emit_def Let_def
        this_settings_def split: option.splits sum.splits)
qed

lemma calls_again:
  "A q = (r, q) \<Longrightarrow> ((\<lambda>q. snd (A q)) ^^ n) q = q"
  by (induction n) simp_all


text \<open>
  C1, amended: once a stage's stored result is no longer unset, a call of its
  accessor returns the stored result (for frameworks the flattened values of the
  stored mapping) and leaves the project as it is, logs included. A first run
  whose detection logic does not throw stores its result, and the frameworks and
  settings accessors store a result in every case; from then on every later call,
  however many follow, returns that result without running the detection logic
  again, so the logic of the stage has run exactly once more than before the first
  call. When no listener throws, the first call has returned the same result. The
  reporter is taken not to throw.
\<close>

theorem stage_detects_once:
  fixes env :: Env and p :: Project and n :: nat
  defines "qpm \<equiv> snd (detectPackageManager env p)"
    and "qws \<equiv> snd (detectWorkspaces env p)"
    and "qbs \<equiv> snd (detectBuildSystem env p)"
    and "qfw \<equiv> snd (detectFrameworks env p)"
    and "qst \<equiv> snd (getBuildSettings env p)"
  assumes safe: "\<forall>e q. report_throws env e q = None"
  shows "(packageManager p = Some pm \<longrightarrow> detectPackageManager env p = (Inr pm, p))
   \<and> (workspace p = Some w \<longrightarrow> detectWorkspaces env p = (Inr w, p))
   \<and> (buildSystems p = Some bs \<longrightarrow> detectBuildSystem env p = (Inr bs, p))
   \<and> (frameworks p = Some m \<longrightarrow> detectFrameworks env p = (Inr (Some (flat_values m)), p))
   \<and> (settings p = Some s \<longrightarrow> getBuildSettings env p = (Inr s, p))
   \<and> (packageManager p = None
        \<and> detectPackageManager_impl env (p\<lparr>ran := ran p @ [StagePackageManager]\<rparr>) = Inr pm'
      \<longrightarrow> packageManager qpm = Some pm'
          \<and> count_list (ran qpm) StagePackageManager = count_list (ran p) StagePackageManager + 1
          \<and> ((\<lambda>q. snd (detectPackageManager env q)) ^^ n) qpm = qpm
          \<and> detectPackageManager env qpm = (Inr pm', qpm)
          \<and> ((\<forall>ev q. emit_throws env ev q = None) \<longrightarrow> fst (detectPackageManager env p) = Inr pm'))
   \<and> (workspace p = None
        \<and> detectWorkspaces_impl env (qpm\<lparr>ran := ran qpm @ [StageWorkspace]\<rparr>) = Inr w'
      \<longrightarrow> workspace qws = Some w'
          \<and> count_list (ran qws) StageWorkspace = count_list (ran p) StageWorkspace + 1
          \<and> ((\<lambda>q. snd (detectWorkspaces env q)) ^^ n) qws = qws
          \<and> detectWorkspaces env qws = (Inr w', qws)
          \<and> ((\<forall>ev q. emit_throws env ev q = None) \<longrightarrow> fst (detectWorkspaces env p) = Inr w'))
   \<and> (buildSystems p = None \<and> detectBuildSystem_all env p = Inr bs'
      \<longrightarrow> buildSystems qbs = Some bs'
          \<and> count_list (ran qbs) StageBuildSystems = count_list (ran p) StageBuildSystems + 1
          \<and> ((\<lambda>q. snd (detectBuildSystem env q)) ^^ n) qbs = qbs
          \<and> detectBuildSystem env qbs = (Inr bs', qbs)
          \<and> ((\<forall>ev q. emit_throws env ev q = None) \<longrightarrow> fst (detectBuildSystem env p) = Inr bs'))
   \<and> (frameworks p = None
      \<longrightarrow> (\<exists>m'. frameworks qfw = Some m'
              \<and> detectFrameworks env qfw = (Inr (Some (flat_values m')), qfw)
              \<and> ((\<forall>ev q. emit_throws env ev q = None) \<longrightarrow>
                    fst (detectFrameworks env p) = Inr (Some (flat_values m'))))
          \<and> count_list (ran qfw) StageFrameworks = count_list (ran p) StageFrameworks + 1
          \<and> ((\<lambda>q. snd (detectFrameworks env q)) ^^ n) qfw = qfw)
   \<and> (settings p = None
      \<longrightarrow> (\<exists>s'. settings qst = Some s'
              \<and> getBuildSettings env qst = (Inr s', qst)
              \<and> fst (getBuildSettings env p) = Inr s')
          \<and> count_list (ran qst) StageSettings = count_list (ran p) StageSettings + 1
          \<and> ((\<lambda>q. snd (getBuildSettings env q)) ^^ n) qst = qst)"
proof -
  have pm: "packageManager qpm = Some pm'
          \<and> count_list (ran qpm) StagePackageManager = count_list (ran p) StagePackageManager + 1
          \<and> ((\<lambda>q. snd (detectPackageManager env q)) ^^ n) qpm = qpm
          \<and> detectPackageManager env qpm = (Inr pm', qpm)
          \<and> ((\<forall>ev q. emit_throws env ev q = None) \<longrightarrow> fst (detectPackageManager env p) = Inr pm')"
    if "packageManager p = None"
      "detectPackageManager_impl env (p\<lparr>ran := ran p @ [StagePackageManager]\<rparr>) = Inr pm'"
  proof -
    have st: "packageManager qpm = Some pm'"
      using that by (simp add: qpm_def detectPackageManager_def emit_def Let_def split: option.splits)
    have c: "count_list (ran qpm) StagePackageManager = count_list (ran p) StagePackageManager + 1"
      using detectPackageManager_chain [OF that(1), of env] by (simp add: qpm_def)
    have f: "(\<forall>ev q. emit_throws env ev q = None) \<longrightarrow> fst (detectPackageManager env p) = Inr pm'"
      using that by (simp add: detectPackageManager_def emit_def Let_def)
    note again = detectPackageManager_cached [OF st, of env]
    from st c f again calls_again [where A = "detectPackageManager env" and n = n, OF again] show ?thesis by simp
  qed
  have ws: "workspace qws = Some w'
          \<and> count_list (ran qws) StageWorkspace = count_list (ran p) StageWorkspace + 1
          \<and> ((\<lambda>q. snd (detectWorkspaces env q)) ^^ n) qws = qws
          \<and> detectWorkspaces env qws = (Inr w', qws)
          \<and> ((\<forall>ev q. emit_throws env ev q = None) \<longrightarrow> fst (detectWorkspaces env p) = Inr w')"
    if "workspace p = None"
      "detectWorkspaces_impl env (qpm\<lparr>ran := ran qpm @ [StageWorkspace]\<rparr>) = Inr w'"
  proof -
    note su = detectWorkspaces_success [OF safe that(1) that(2) [unfolded qpm_def]]
    have st: "workspace qws = Some w'" using su by (simp add: qws_def)
    have c: "count_list (ran qws) StageWorkspace = count_list (ran p) StageWorkspace + 1"
      using detectWorkspaces_ran [OF safe that(1)]
        detectPackageManager_other_stage [of StageWorkspace env p]
      by (simp add: qws_def)
    note again = detectWorkspaces_cached [OF st, of env]
    from st c su again calls_again [where A = "detectWorkspaces env" and n = n, OF again] show ?thesis by simp
  qed
  have bs: "buildSystems qbs = Some bs'
          \<and> count_list (ran qbs) StageBuildSystems = count_list (ran p) StageBuildSystems + 1
          \<and> ((\<lambda>q. snd (detectBuildSystem env q)) ^^ n) qbs = qbs
          \<and> detectBuildSystem env qbs = (Inr bs', qbs)
          \<and> ((\<forall>ev q. emit_throws env ev q = None) \<longrightarrow> fst (detectBuildSystem env p) = Inr bs')"
    if "buildSystems p = None" "detectBuildSystem_all env p = Inr bs'"
  proof -
    note su = detectBuildSystem_success [OF safe that]
    have st: "buildSystems qbs = Some bs'" using su by (simp add: qbs_def)
    have c: "count_list (ran qbs) StageBuildSystems = count_list (ran p) StageBuildSystems + 1"
      using detectBuildSystem_ran [OF safe that(1)]
        detectWorkspaces_other_stage [OF safe, of StageBuildSystems p]
      by (simp add: qbs_def)
    note again = detectBuildSystem_cached [OF st, of env]
    from st c su again calls_again [where A = "detectBuildSystem env" and n = n, OF again] show ?thesis by simp
  qed
  have fw: "(\<exists>m'. frameworks qfw = Some m'
              \<and> detectFrameworks env qfw = (Inr (Some (flat_values m')), qfw)
              \<and> ((\<forall>ev q. emit_throws env ev q = None) \<longrightarrow>
                    fst (detectFrameworks env p) = Inr (Some (flat_values m'))))
          \<and> count_list (ran qfw) StageFrameworks = count_list (ran p) StageFrameworks + 1
          \<and> ((\<lambda>q. snd (detectFrameworks env q)) ^^ n) qfw = qfw"
    if "frameworks p = None"
  proof -
    from detectFrameworks_success [OF safe that]
    obtain m' where st: "frameworks qfw = Some m'"
      and f: "(\<forall>ev q. emit_throws env ev q = None) \<longrightarrow>
                fst (detectFrameworks env p) = Inr (Some (flat_values m'))"
      by (auto simp: qfw_def)
    have c: "count_list (ran qfw) StageFrameworks = count_list (ran p) StageFrameworks + 1"
      using detectFrameworks_stored [OF safe that]
        detectBuildSystem_other_stage [OF safe, of StageFrameworks p]
      by (simp add: qfw_def)
    note again = detectFrameworks_cached [OF st, of env]
    from st c f again calls_again [where A = "detectFrameworks env" and n = n, OF again] show ?thesis by simp
  qed
  have stg: "(\<exists>s'. settings qst = Some s'
              \<and> getBuildSettings env qst = (Inr s', qst)
              \<and> fst (getBuildSettings env p) = Inr s')
          \<and> count_list (ran qst) StageSettings = count_list (ran p) StageSettings + 1
          \<and> ((\<lambda>q. snd (getBuildSettings env q)) ^^ n) qst = qst"
    if "settings p = None"
  proof -
    from getBuildSettings_success(1) [OF safe that]
    obtain s' where st: "settings qst = Some s'" and f: "fst (getBuildSettings env p) = Inr s'"
      by (auto simp: qst_def)
    have c: "count_list (ran qst) StageSettings = count_list (ran p) StageSettings + 1"
      using getBuildSettings_success(2) [OF safe that]
        detectFrameworks_other_stage [OF safe, of StageSettings "p\<lparr>settings := Some []\<rparr>"]
      by (simp add: qst_def)
    note again = getBuildSettings_cached [OF st, of env]
    from st c f again calls_again [where A = "getBuildSettings env" and n = n, OF again] show ?thesis by simp
  qed
  from pm ws bs fw stg show ?thesis
    by (simp add: detectPackageManager_cached detectWorkspaces_cached detectBuildSystem_cached
        detectFrameworks_cached getBuildSettings_cached)
qed


theorem stage_detects_once_witness:
  "detectPackageManager failing_env settled = (Inr (Some npm), settled)
   \<and> detectWorkspaces failing_env settled = (Inr None, settled)
   \<and> detectBuildSystem failing_env settled = (Inr [], settled)
   \<and> detectFrameworks failing_env settled = (Inr (Some []), settled)
   \<and> getBuildSettings failing_env settled = (Inr [], settled)
   \<and> packageManager (snd (detectPackageManager quiet_env fresh)) = Some (Some npm)
   \<and> count_list (ran (((\<lambda>q. snd (detectPackageManager quiet_env q)) ^^ 3)
                         (snd (detectPackageManager quiet_env fresh)))) StagePackageManager = 1
   \<and> workspace (snd (detectWorkspaces quiet_env fresh)) = Some None
   \<and> count_list (ran (((\<lambda>q. snd (detectWorkspaces quiet_env q)) ^^ 3)
                         (snd (detectWorkspaces quiet_env fresh)))) StageWorkspace = 1
   \<and> buildSystems (snd (detectBuildSystem quiet_env fresh)) = Some []
   \<and> count_list (ran (((\<lambda>q. snd (detectBuildSystem quiet_env q)) ^^ 3)
                         (snd (detectBuildSystem quiet_env fresh)))) StageBuildSystems = 1
   \<and> count_list (ran (((\<lambda>q. snd (detectFrameworks quiet_env q)) ^^ 3)
                         (snd (detectFrameworks quiet_env fresh)))) StageFrameworks = 1
   \<and> count_list (ran (((\<lambda>q. snd (getBuildSettings quiet_env q)) ^^ 3)
                         (snd (getBuildSettings quiet_env fresh)))) StageSettings = 1
   \<and> fst (getBuildSettings quiet_env (snd (getBuildSettings quiet_env fresh))) =
        fst (getBuildSettings quiet_env fresh)"
proof -
  have safe: "\<forall>e q. report_throws quiet_env e q = None"
    by (simp add: quiet_env_simps)
  have safe': "\<forall>e q. report_throws failing_env e q = None"
    by (simp add: failing_env_simps)
  have bs: "detectBuildSystem_all quiet_env fresh = Inr []"
    by (simp add: quiet_BuildSystem_all BuildSystem_detect_def fresh_simps truthy_def)
  have c: "detectPackageManager failing_env settled = (Inr (Some npm), settled)
   \<and> detectWorkspaces failing_env settled = (Inr None, settled)
   \<and> detectBuildSystem failing_env settled = (Inr [], settled)
   \<and> detectFrameworks failing_env settled = (Inr (Some []), settled)
   \<and> getBuildSettings failing_env settled = (Inr [], settled)"
    using stage_detects_once [OF safe', where p = settled and pm = "Some npm" and w = None
        and bs = "[]" and m = "[([], [])]" and s = "[]"]
    by (simp add: settled_simps flat_values_def)
  note t = stage_detects_once [OF safe, where p = fresh and n = 3 and pm' = "Some npm"
      and w' = None and bs' = "[]"]
  have 1: "packageManager (snd (detectPackageManager quiet_env fresh)) = Some (Some npm)
   \<and> count_list (ran (((\<lambda>q. snd (detectPackageManager quiet_env q)) ^^ 3)
                         (snd (detectPackageManager quiet_env fresh)))) StagePackageManager = 1"
    using t by (simp add: fresh_simps quiet_env_simps)
  have 2: "workspace (snd (detectWorkspaces quiet_env fresh)) = Some None
   \<and> count_list (ran (((\<lambda>q. snd (detectWorkspaces quiet_env q)) ^^ 3)
                         (snd (detectWorkspaces quiet_env fresh)))) StageWorkspace = 1"
    using t by (simp add: fresh_simps quiet_env_simps)
  have 3: "buildSystems (snd (detectBuildSystem quiet_env fresh)) = Some []
   \<and> count_list (ran (((\<lambda>q. snd (detectBuildSystem quiet_env q)) ^^ 3)
                         (snd (detectBuildSystem quiet_env fresh)))) StageBuildSystems = 1"
    using t bs by (simp add: fresh_simps)
  have 4: "count_list (ran (((\<lambda>q. snd (detectFrameworks quiet_env q)) ^^ 3)
                         (snd (detectFrameworks quiet_env fresh)))) StageFrameworks = 1"
    using t by (simp add: fresh_simps)
  have 5: "count_list (ran (((\<lambda>q. snd (getBuildSettings quiet_env q)) ^^ 3)
                         (snd (getBuildSettings quiet_env fresh)))) StageSettings = 1
   \<and> fst (getBuildSettings quiet_env (snd (getBuildSettings quiet_env fresh))) =
        fst (getBuildSettings quiet_env fresh)"
    using t by (auto simp: fresh_simps)
  from c 1 2 3 4 5 show ?thesis by blast
qed

section \<open>The degraded path\<close>

lemma detectFrameworksInPath_rejected:
  "Inl e \<in> set (map (\<lambda>detect. detect p pth) (frameworks_registry env)) \<Longrightarrow>
     detectFrameworksInPath env p pth = []"
proof -
  assume "Inl e \<in> set (map (\<lambda>detect. detect p pth) (frameworks_registry env))"
  from promise_all_rejected [OF this, of "completes_next env (JoinFrameworks pth)"]
  obtain e' where "promise_all (completes_next env (JoinFrameworks pth))
      (map (\<lambda>detect. detect p pth) (frameworks_registry env)) = Inl e'"
    by blast
  then show ?thesis by (simp add: detectFrameworksInPath_def)
qed

text \<open>
  C2, as stated, fails: when package manager detection throws, the accessor returns
  \<open>null\<close> but the field stays undefined, and nothing is reported.
\<close>

theorem failed_detection_not_stored:
  "fst (detectPackageManager failing_env fresh) = Inr None
   \<and> packageManager (snd (detectPackageManager failing_env fresh)) = None
   \<and> reported (snd (detectPackageManager failing_env fresh)) = []"
  by (simp add: detectPackageManager_def failing_env_simps fresh_simps)

text \<open>
  C2, amended: when a stage's detection logic throws, its accessor resolves to the
  degraded result: \<open>null\<close> for package manager and workspace, \<open>[]\<close> for build
  systems and settings, and \<open>[]\<close> for a path one of whose framework detectors
  rejects. The workspace, build system and settings accessors report the error,
  once; the package manager accessor reports nothing. Package manager, workspace
  and build systems store nothing, their fields stay undefined; settings holds the
  \<open>[]\<close> assigned before detection. Later stages still run: when build system
  detection throws, \<open>detectBuildSystem\<close> resolves to \<open>[]\<close> and \<open>detectFrameworks\<close>
  resolves and stores its mapping, the build systems still undefined.
\<close>

theorem failed_detection_degrades:
  fixes env :: Env and p :: Project
  defines "pm \<equiv> snd (detectPackageManager env p)"
    and "pw \<equiv> snd (detectWorkspaces env p)"
    and "pf \<equiv> snd (detectFrameworks env (p\<lparr>settings := Some []\<rparr>))"
  assumes safe: "\<forall>e q. report_throws env e q = None"
  shows "(packageManager p = None
          \<and> isl (detectPackageManager_impl env (p\<lparr>ran := ran p @ [StagePackageManager]\<rparr>))
        \<longrightarrow> detectPackageManager env p = (Inr None, p\<lparr>ran := ran p @ [StagePackageManager]\<rparr>))
     \<and> (workspace p = None
          \<and> detectWorkspaces_impl env (pm\<lparr>ran := ran pm @ [StageWorkspace]\<rparr>) = Inl e
        \<longrightarrow> detectWorkspaces env p =
              (Inr None, pm\<lparr>ran := ran pm @ [StageWorkspace], reported := reported pm @ [e]\<rparr>))
     \<and> (buildSystems p = None \<and> detectBuildSystem_all env p = Inl e
        \<longrightarrow> detectBuildSystem env p =
              (Inr [], pw\<lparr>ran := ran pw @ [StageBuildSystems], reported := reported pw @ [e]\<rparr>)
            \<and> (frameworks p = None
                \<longrightarrow> (\<exists>r. fst (detectFrameworks env p) = Inr r)
                    \<and> frameworks (snd (detectFrameworks env p)) \<noteq> None
                    \<and> buildSystems (snd (detectFrameworks env p)) = None))
     \<and> (settings p = None
          \<and> getBuildSettings_impl env (pf\<lparr>ran := ran pf @ [StageSettings]\<rparr>) = Inl e
        \<longrightarrow> getBuildSettings env p =
              (Inr [], pf\<lparr>ran := ran pf @ [StageSettings], reported := reported pf @ [e]\<rparr>)
            \<and> settings pf = Some [])
     \<and> (Inl e \<in> set (map (\<lambda>detect. detect p pth) (frameworks_registry env))
        \<longrightarrow> detectFrameworksInPath env p pth = [])"
proof -
  have a: "detectPackageManager env p = (Inr None, p\<lparr>ran := ran p @ [StagePackageManager]\<rparr>)"
    if "packageManager p = None"
      "isl (detectPackageManager_impl env (p\<lparr>ran := ran p @ [StagePackageManager]\<rparr>))"
    using that
    by (cases "detectPackageManager_impl env (p\<lparr>ran := ran p @ [StagePackageManager]\<rparr>)")
       (simp_all add: detectPackageManager_def)
  have b: "detectWorkspaces env p =
              (Inr None, pm\<lparr>ran := ran pm @ [StageWorkspace], reported := reported pm @ [e]\<rparr>)"
    if "workspace p = None" "detectWorkspaces_impl env (pm\<lparr>ran := ran pm @ [StageWorkspace]\<rparr>) = Inl e"
  proof -
    obtain r0 p0 where up: "detectPackageManager env p = (r0, p0)"
      by (cases "detectPackageManager env p")
    from detectPackageManager_frame [of env p] have "\<not> isl r0" by (simp add: up)
    then obtain v0 where r0: "r0 = Inr v0" by (cases r0) auto
    show ?thesis
      using that safe
      by (simp add: detectWorkspaces_def pm_def up r0 catch_report_def report_def)
  qed
  have c: "detectBuildSystem env p =
              (Inr [], pw\<lparr>ran := ran pw @ [StageBuildSystems], reported := reported pw @ [e]\<rparr>)"
    if "buildSystems p = None" "detectBuildSystem_all env p = Inl e"
  proof -
    obtain r0 p0 where up: "detectWorkspaces env p = (r0, p0)"
      by (cases "detectWorkspaces env p")
    from detectWorkspaces_frame [OF safe, of p]
    have fr: "\<not> isl r0" "fs p0 = fs p" "baseDirectory p0 = baseDirectory p" "root p0 = root p"
      by (simp_all add: up)
    then obtain v0 where r0: "r0 = Inr v0" by (cases r0) auto
    have "detectBuildSystem_all env (p0\<lparr>ran := ran p0 @ [StageBuildSystems]\<rparr>) = Inl e"
      using that(2) detectBuildSystem_all_site [of "p0\<lparr>ran := ran p0 @ [StageBuildSystems]\<rparr>" p env]
      by (simp add: fr)
    then show ?thesis
      using that safe
      by (simp add: detectBuildSystem_def pw_def up r0 catch_report_def report_def)
  qed
  have c': "(\<exists>r. fst (detectFrameworks env p) = Inr r)
        \<and> frameworks (snd (detectFrameworks env p)) \<noteq> None
        \<and> buildSystems (snd (detectFrameworks env p)) = None"
    if "buildSystems p = None" "detectBuildSystem_all env p = Inl e" "frameworks p = None"
  proof -
    have 1: "\<exists>r. fst (detectFrameworks env p) = Inr r"
      using detectFrameworks_frame [OF safe, of p]
      by (cases "fst (detectFrameworks env p)") simp_all
    have 2: "buildSystems (snd (detectBuildSystem env p)) = None"
      using c [OF that(1,2)] detectWorkspaces_frame [OF safe, of p] that(1) by (simp add: pw_def)
    show ?thesis
      using 1 2 detectFrameworks_stored [OF safe that(3)] by simp
  qed
  have d: "getBuildSettings env p =
              (Inr [], pf\<lparr>ran := ran pf @ [StageSettings], reported := reported pf @ [e]\<rparr>)
            \<and> settings pf = Some []"
    if "settings p = None" "getBuildSettings_impl env (pf\<lparr>ran := ran pf @ [StageSettings]\<rparr>) = Inl e"
  proof -
    obtain r0 p0 where up: "detectFrameworks env (p\<lparr>settings := Some []\<rparr>) = (r0, p0)"
      by (cases "detectFrameworks env (p\<lparr>settings := Some []\<rparr>)")
    from detectFrameworks_frame [OF safe, of "p\<lparr>settings := Some []\<rparr>"]
    have fr: "\<not> isl r0" "settings p0 = Some []" by (simp_all add: up)
    then obtain v0 where r0: "r0 = Inr v0" by (cases r0) auto
    show ?thesis
      using that safe fr
      by (simp add: getBuildSettings_def pf_def up r0 catch_report_settings_def report_def
          this_settings_def)
  qed
  from a b c c' d detectFrameworksInPath_rejected [of e p pth env]
  show ?thesis by blast
qed


lemma failing_BuildSystem_all:
  "detectBuildSystem_all failing_env fresh_broken = Inl (Error ''findUp'')"
  by (simp add: detectBuildSystem_all_def failing_env_simps promise_all_def BuildSystem_detect_def
      fresh_broken_simps enumerate_eq_zip)

theorem failed_detection_degrades_witness:
  "detectPackageManager failing_env fresh_broken =
      (Inr None, fresh_broken\<lparr>ran := [StagePackageManager]\<rparr>)
   \<and> fst (detectWorkspaces failing_env fresh_broken) = Inr None
   \<and> workspace (snd (detectWorkspaces failing_env fresh_broken)) = None
   \<and> reported (snd (detectWorkspaces failing_env fresh_broken)) = [Error ''workspace'']
   \<and> fst (detectBuildSystem failing_env fresh_broken) = Inr []
   \<and> buildSystems (snd (detectBuildSystem failing_env fresh_broken)) = None
   \<and> reported (snd (detectBuildSystem failing_env fresh_broken)) =
        [Error ''workspace'', Error ''findUp'']
   \<and> (\<exists>r. fst (detectFrameworks failing_env fresh_broken) = Inr r)
   \<and> frameworks (snd (detectFrameworks failing_env fresh_broken)) \<noteq> None
   \<and> fst (getBuildSettings failing_env fresh_broken) = Inr []
   \<and> detectFrameworksInPath failing_env fresh_broken None = []"
proof -
  have safe: "\<forall>e q. report_throws failing_env e q = None"
    by (simp add: failing_env_simps)
  note t = failed_detection_degrades [OF safe, of fresh_broken]
  have a: "detectPackageManager failing_env fresh_broken =
      (Inr None, fresh_broken\<lparr>ran := [StagePackageManager]\<rparr>)"
    using t [of "Error ''x''" None] by (simp add: failing_env_simps fresh_broken_simps)
  have b: "detectWorkspaces failing_env fresh_broken =
      (Inr None, fresh_broken\<lparr>ran := [StagePackageManager, StageWorkspace],
                                reported := [Error ''workspace'']\<rparr>)"
    using t [of "Error ''workspace''" None] by (simp add: a failing_env_simps fresh_broken_simps)
  have c: "detectBuildSystem failing_env fresh_broken =
      (Inr [], fresh_broken\<lparr>ran := [StagePackageManager, StageWorkspace, StageBuildSystems],
                              reported := [Error ''workspace'', Error ''findUp'']\<rparr>)
      \<and> (\<exists>r. fst (detectFrameworks failing_env fresh_broken) = Inr r)
      \<and> frameworks (snd (detectFrameworks failing_env fresh_broken)) \<noteq> None"
    using t [of "Error ''findUp''" None]
    by (simp add: b failing_env_simps fresh_broken_simps failing_BuildSystem_all)
  have d: "fst (getBuildSettings failing_env fresh_broken) = Inr []"
    using t [of "Error ''settings''" None] by (simp add: failing_env_simps fresh_broken_simps)
  have e: "detectFrameworksInPath failing_env fresh_broken None = []"
    using t [of "Error ''framework''" None] by (simp add: failing_env_simps)
  from a b c d e show ?thesis by (simp add: fresh_broken_simps)
qed

section \<open>Build systems in registration order\<close>

text \<open>
  C8: when every detector's upward search settles without an error, the build
  systems stored (and, when no listener throws, returned) by \<open>detectBuildSystem\<close>
  are the registered detectors of which a marker file is found, in registration
  order, whatever the order in which the searches complete; so a detector is in
  the list exactly when it is registered and one of its markers is found.
\<close>

theorem buildSystems_in_registration_order:
  assumes safe: "\<forall>e q. report_throws env e q = None"
    and settles: "\<forall>b\<in>set (buildSystems_registry env).
                   \<not> isl (findUp (fs p) (configFiles b) (baseDirectory p) (root p))"
    and unset: "buildSystems p = None"
  shows "detectBuildSystem_all (env\<lparr>completes_next := sched\<rparr>) p =
           Inr (filter (marker_found p) (buildSystems_registry env))
     \<and> buildSystems (snd (detectBuildSystem env p)) =
           Some (filter (marker_found p) (buildSystems_registry env))
     \<and> ((\<forall>ev q. emit_throws env ev q = None) \<longrightarrow>
           fst (detectBuildSystem env p) = Inr (filter (marker_found p) (buildSystems_registry env)))
     \<and> (\<forall>b. b \<in> set (filter (marker_found p) (buildSystems_registry env)) \<longleftrightarrow>
             b \<in> set (buildSystems_registry env) \<and> marker_found p b)"
proof -
  have all: "detectBuildSystem_all env' p = Inr (filter (marker_found p) (buildSystems_registry env))"
    if "buildSystems_registry env' = buildSystems_registry env" for env'
    using detectBuildSystem_all_found [of env' p] settles that by simp
  have 1: "detectBuildSystem_all (env\<lparr>completes_next := sched\<rparr>) p =
           Inr (filter (marker_found p) (buildSystems_registry env))"
    by (rule all) simp
  have 2: "buildSystems (snd (detectBuildSystem env p)) =
           Some (filter (marker_found p) (buildSystems_registry env))"
    using detectBuildSystem_stored [OF safe unset] all [of env] by simp
  have 3: "fst (detectBuildSystem env p) = Inr (filter (marker_found p) (buildSystems_registry env))"
    if quiet: "\<forall>ev q. emit_throws env ev q = None"
  proof -
    obtain r0 p0 where up: "detectWorkspaces env p = (r0, p0)"
      by (cases "detectWorkspaces env p")
    from detectWorkspaces_frame [OF safe, of p]
    have fr: "\<not> isl r0" "fs p0 = fs p" "baseDirectory p0 = baseDirectory p" "root p0 = root p"
      by (simp_all add: up)
    then obtain v0 where r0: "r0 = Inr v0" by (cases r0) auto
    have "detectBuildSystem_all env (p0\<lparr>ran := ran p0 @ [StageBuildSystems]\<rparr>) =
          Inr (filter (marker_found p) (buildSystems_registry env))"
      using all [of env] detectBuildSystem_all_site [of "p0\<lparr>ran := ran p0 @ [StageBuildSystems]\<rparr>" p env]
      by (simp add: fr)
    then show ?thesis
      using unset quiet
      by (simp add: detectBuildSystem_def up r0 emit_def)
  qed
  from 1 2 3 show ?thesis by simp
qed

lemma buck_project_simps:
  "packageManager buck_project = None" "workspace buck_project = None"
  "buildSystems buck_project = None" "frameworks buck_project = None"
  "settings buck_project = None" "ran buck_project = []" "reported buck_project = []"
  "emitted buck_project = []" "root buck_project = None" "baseDirectory buck_project = ''/''"
  "findUp (fs buck_project) = (\<lambda>names c stopAt.
           if ''BUCK'' \<in> set names then Inr (Some ''/BUCK'') else Inr None)"
  by (simp_all add: buck_project_def Project_constructor_def Let_def posix_fs_def or_else_def truthy_def)

theorem buildSystems_in_registration_order_witness:
  "detectBuildSystem_all (two_systems_env\<lparr>completes_next := (\<lambda>j k. 0)\<rparr>) buck_project = Inr [Buck]
   \<and> buildSystems (snd (detectBuildSystem two_systems_env buck_project)) = Some [Buck]
   \<and> fst (detectBuildSystem two_systems_env buck_project) = Inr [Buck]
   \<and> Lerna \<notin> set [Buck]"
proof -
  have safe: "\<forall>e q. report_throws two_systems_env e q = None"
    by (simp add: two_systems_env_def quiet_env_simps)
  have quiet: "\<forall>ev q. emit_throws two_systems_env ev q = None"
    by (simp add: two_systems_env_def quiet_env_simps)
  have reg: "buildSystems_registry two_systems_env = [Lerna, Buck]"
    by (simp add: two_systems_env_def)
  have settles: "\<forall>b\<in>set (buildSystems_registry two_systems_env).
      \<not> isl (findUp (fs buck_project) (configFiles b) (baseDirectory buck_project) (root buck_project))"
    by (simp add: reg buck_project_simps)
  have found: "marker_found buck_project Buck" "\<not> marker_found buck_project Lerna"
    by (simp_all add: marker_found_def buck_project_simps Buck_def Lerna_def truthy_def)
  from buildSystems_in_registration_order [OF safe settles buck_project_simps(3), of "\<lambda>j k. 0"]
    quiet found
  show ?thesis
    by (auto simp: reg)
qed

section \<open>The frameworks mapping\<close>

lemma map_fst_map_set:
  "map fst (map_set k v m) = (if k \<in> set (map fst m) then map fst m else map fst m @ [k])"
proof (induction m)
  case Nil
  show ?case by simp
next
  case (Cons a m)
  then show ?case by (cases a) auto
qed

lemma keys_map_set: "fst ` set (map_set k v m) = insert k (fst ` set m)"
proof -
  have "set (map fst (map_set k v m)) = insert k (set (map fst m))"
    unfolding map_fst_map_set by auto
  then show ?thesis by simp
qed

lemma distinct_map_set: "distinct (map fst m) \<Longrightarrow> distinct (map fst (map_set k v m))"
  unfolding map_fst_map_set by simp

lemma map_of_map_set: "map_of (map_set k v m) = (map_of m)(k \<mapsto> v)"
  by (induction m) auto

lemma keys_foldl_map_set:
  "fst ` set (foldl (\<lambda>m x. map_set (key x) (val x) m) m xs) = fst ` set m \<union> key ` set xs"
  by (induction xs arbitrary: m) (simp_all add: keys_map_set)

lemma distinct_foldl_map_set:
  "distinct (map fst m) \<Longrightarrow> distinct (map fst (foldl (\<lambda>m x. map_set (key x) (val x) m) m xs))"
  by (induction xs arbitrary: m) (auto simp: distinct_map_set)

lemma map_of_foldl_map_set:
  "\<forall>x\<in>set xs. val x = f (key x) \<Longrightarrow>
   map_of (foldl (\<lambda>m x. map_set (key x) (val x) m) m xs) k =
     (if k \<in> key ` set xs then Some (f k) else map_of m k)"
  by (induction xs arbitrary: m) (auto simp: map_of_map_set)

lemma detectFrameworks_packages_keys:
  "distinct (map fst (detectFrameworks_packages env p w))
   \<and> set (map fst (detectFrameworks_packages env p w)) = path ` set (packages w)
   \<and> (\<forall>pkg\<in>set (packages w). map_of (detectFrameworks_packages env p w) (path pkg) =
         Some (detectFrameworksInPath env p (Some (join (fs p) (rootDir w) (path pkg)))))"
proof -
  let ?val = "\<lambda>pkg. detectFrameworksInPath env p (Some (join (fs p) (rootDir w) (path pkg)))"
  let ?f = "\<lambda>k. detectFrameworksInPath env p (Some (join (fs p) (rootDir w) k))"
  let ?xs = "schedule (completes_next env JoinPackages) 0 (packages w)"
  have d: "detectFrameworks_packages env p w = foldl (\<lambda>m x. map_set (path x) (?val x) m) [] ?xs"
    by (simp add: detectFrameworks_packages_def)
  have s: "set ?xs = set (packages w)" by (rule set_schedule)
  have 1: "distinct (map fst (detectFrameworks_packages env p w))"
    unfolding d by (rule distinct_foldl_map_set) simp
  have 2: "set (map fst (detectFrameworks_packages env p w)) = path ` set (packages w)"
    unfolding d by (simp add: keys_foldl_map_set s)
  have 3: "map_of (detectFrameworks_packages env p w) k =
      (if k \<in> path ` set ?xs then Some (?f k) else map_of [] k)" for k
    unfolding d by (rule map_of_foldl_map_set) simp
  from 1 2 3 s show ?thesis by simp
qed

text \<open>
  C5: after \<open>detectFrameworks\<close> has run on a project whose mapping was unset, the
  stored mapping has distinct keys; on a workspace project its keys are exactly the
  member paths, each mapped to what \<open>detectFrameworksInPath\<close> gave for that member
  (the empty list when nothing matched), and otherwise it is the single entry of
  the root path \<open>''\<close>. This holds for every scheduler, so for every completion
  order of the per-path evaluations.
\<close>

theorem frameworks_cover_every_path:
  fixes env :: Env and p :: Project
  defines "p1 \<equiv> detectFrameworks_start (snd (detectBuildSystem env p))"
    and "p' \<equiv> snd (detectFrameworks env p)"
  assumes safe: "\<forall>e q. report_throws env e q = None"
    and unset: "frameworks p = None"
  shows "\<exists>m. frameworks p' = Some m \<and> distinct (map fst m)
     \<and> (case workspace p' of
          Some (Some w) \<Rightarrow>
            set (map fst m) = path ` set (packages w)
            \<and> (\<forall>pkg\<in>set (packages w). map_of m (path pkg) =
                  Some (detectFrameworksInPath env p1 (Some (join (fs p1) (rootDir w) (path pkg)))))
        | _ \<Rightarrow> m = [([], detectFrameworksInPath env p1 None)])"
proof -
  note st = detectFrameworks_stored [OF safe unset]
  show ?thesis
  proof (cases "workspace (snd (detectBuildSystem env p))")
    case None
    then show ?thesis using st by (simp add: p'_def p1_def)
  next
    case (Some ow)
    show ?thesis
    proof (cases ow)
      case None
      then show ?thesis using st Some by (simp add: p'_def p1_def)
    next
      case (Some w)
      with \<open>workspace (snd (detectBuildSystem env p)) = Some ow\<close>
      have w: "workspace (snd (detectBuildSystem env p)) = Some (Some w)" by simp
      show ?thesis
        using st w detectFrameworks_packages_keys [of env p1 w]
        by (simp add: p'_def p1_def)
    qed
  qed
qed

lemma workspace_env_simps:
  "detectPackageManager_impl workspace_env = (\<lambda>p. Inr (Some npm))"
  "detectWorkspaces_impl workspace_env = (\<lambda>p. Inr (Some two_packages))"
  "buildSystems_registry workspace_env = [Buck]"
  "frameworks_registry workspace_env =
     [\<lambda>p pth. if pth = Some ''/repo/pkg-a'' then Inr (Some staticSiteGen) else Inr None]"
  "emit_throws workspace_env = (\<lambda>ev p. None)"
  "report_throws workspace_env = (\<lambda>e p. None)"
  "completes_next workspace_env = (\<lambda>j k. 1)"
  by (simp_all add: workspace_env_def quiet_env_def)

lemma workspace_env_in_path:
  "detectFrameworksInPath workspace_env q pth =
     (if pth = Some ''/repo/pkg-a'' then [staticSiteGen] else [])"
  by (simp add: detectFrameworksInPath_def workspace_env_simps promise_all_def enumerate_eq_zip
      filterByRelevance_Nil filterByRelevance_single)

lemma workspace_env_workspace:
  "workspace (snd (detectBuildSystem workspace_env fresh)) = Some (Some two_packages)"
proof -
  have safe: "\<forall>e q. report_throws workspace_env e q = None"
    by (simp add: workspace_env_simps)
  have "workspace (snd (detectWorkspaces workspace_env fresh)) = Some (Some two_packages)"
    by (simp add: detectWorkspaces_def detectPackageManager_def fresh_simps workspace_env_simps
        emit_def)
  then show ?thesis
    using detectBuildSystem_stored [OF safe fresh_simps(3)] by simp
qed

theorem frameworks_cover_every_path_witness:
  "(\<exists>m. frameworks (snd (detectFrameworks workspace_env fresh)) = Some m
        \<and> distinct (map fst m) \<and> set (map fst m) = {''pkg-a'', ''pkg-b''}
        \<and> map_of m ''pkg-a'' = Some [staticSiteGen] \<and> map_of m ''pkg-b'' = Some [])
   \<and> frameworks (snd (detectFrameworks quiet_env fresh)) = Some [([], [])]"
proof -
  have safe: "\<forall>e q. report_throws workspace_env e q = None"
    by (simp add: workspace_env_simps)
  have safe': "\<forall>e q. report_throws quiet_env e q = None"
    by (simp add: quiet_env_simps)
  have ws: "workspace (snd (detectFrameworks workspace_env fresh)) = Some (Some two_packages)"
    using detectFrameworks_stored [OF safe fresh_simps(4)] workspace_env_workspace by simp
  have site: "fs (detectFrameworks_start (snd (detectBuildSystem workspace_env fresh))) = fs fresh"
    using detectBuildSystem_frame [OF safe, of fresh] by (simp add: detectFrameworks_start_def)
  have join: "join (fs fresh) ''/repo'' ''pkg-a'' = ''/repo/pkg-a''"
    "join (fs fresh) ''/repo'' ''pkg-b'' = ''/repo/pkg-b''"
    by (simp_all add: fresh_def Project_constructor_def Let_def posix_fs_def)
  from frameworks_cover_every_path [OF safe fresh_simps(4)]
  have 1: "\<exists>m. frameworks (snd (detectFrameworks workspace_env fresh)) = Some m
        \<and> distinct (map fst m) \<and> set (map fst m) = {''pkg-a'', ''pkg-b''}
        \<and> map_of m ''pkg-a'' = Some [staticSiteGen] \<and> map_of m ''pkg-b'' = Some []"
    by (simp add: ws two_packages_def workspace_env_in_path site join)
  have ws': "workspace (snd (detectFrameworks quiet_env fresh)) = Some None"
    using detectFrameworks_stored [OF safe' fresh_simps(4)] detectBuildSystem_stored [OF safe' fresh_simps(3)]
    by (simp add: detectWorkspaces_def detectPackageManager_def fresh_simps quiet_env_simps emit_def)
  from frameworks_cover_every_path [OF safe' fresh_simps(4)]
  have 2: "frameworks (snd (detectFrameworks quiet_env fresh)) = Some [([], [])]"
    by (simp add: ws' detectFrameworksInPath_def quiet_env_simps promise_all_def filterByRelevance_Nil)
  from 1 2 show ?thesis by blast
qed

section \<open>Relevance\<close>

text \<open>
  Refilling keeps every element outside the class where it is and leaves the class
  the queue, so ranking permutes the matches of top confidence among their own
  places and nothing else.
\<close>

lemma refill_class:
  "\<forall>y\<in>set q. P y \<Longrightarrow> length q = length (filter P xs) \<Longrightarrow> filter P (refill P xs q) = q"
proof (induction xs arbitrary: q)
  case Nil
  then show ?case by simp
next
  case (Cons x xs)
  show ?case
  proof (cases "P x")
    case True
    then obtain y q' where q: "q = y # q'"
      using Cons.prems(2) by (cases q) auto
    then show ?thesis using True Cons.IH [of q'] Cons.prems by simp
  next
    case False
    then show ?thesis using Cons.IH [of q] Cons.prems by simp
  qed
qed

lemma refill_rest:
  "\<forall>y\<in>set q. P y \<Longrightarrow> filter (\<lambda>x. \<not> P x) (refill P xs q) = filter (\<lambda>x. \<not> P x) xs"
proof (induction xs arbitrary: q)
  case Nil
  then show ?case by simp
next
  case (Cons x xs)
  show ?case
  proof (cases q)
    case Nil
    then show ?thesis using Cons.IH [of "[]"] by simp
  next
    case (Cons y q')
    then show ?thesis using Cons.IH [of q'] Cons.IH [of q] Cons.prems by simp
  qed
qed

lemma refill_same: "filter P xs = q \<Longrightarrow> refill P xs q = xs"
proof (induction xs arbitrary: q)
  case Nil
  then show ?case by simp
next
  case (Cons x xs)
  then show ?case by (cases "P x") auto
qed

lemma mset_refill:
  assumes "\<forall>y\<in>set q. P y" and "mset q = mset (filter P xs)"
  shows "mset (refill P xs q) = mset xs"
proof -
  have len: "length q = length (filter P xs)"
    using assms(2) by (rule mset_eq_length)
  have "mset (refill P xs q) =
        mset (filter P (refill P xs q)) + mset (filter (\<lambda>x. \<not> P x) (refill P xs q))"
    by (simp only: mset_filter multiset_partition [symmetric])
  also have "\<dots> = mset (filter P xs) + mset (filter (\<lambda>x. \<not> P x) xs)"
    using refill_class [OF assms(1) len] refill_rest [OF assms(1), of xs] assms(2) by simp
  also have "\<dots> = mset xs"
    by (simp only: mset_filter multiset_partition [symmetric])
  finally show ?thesis .
qed

lemma mset_two_classes:
  "\<forall>x. \<not> (G x \<and> T x) \<Longrightarrow>
     mset (filter G xs @ filter T xs) = mset (filter (\<lambda>x. G x \<or> T x) xs)"
  by (induction xs) auto

lemma filter_two_classes:
  "\<forall>x. \<not> (G x \<and> T x) \<Longrightarrow> filter G (filter G xs @ filter T xs) = filter G xs"
  "\<forall>x. \<not> (G x \<and> T x) \<Longrightarrow> filter T (filter G xs @ filter T xs) = filter T xs"
  by (induction xs) auto

lemma kinds_apart: "\<forall>m. \<not> (top_generator ms m \<and> top_tool ms m)"
  by (simp add: top_generator_def top_tool_def)

lemma at_top_set: "set xs = set ys \<Longrightarrow> at_top xs = at_top ys"
  by (intro ext) (simp add: at_top_def list_ex_iff)

lemma ranked_queue:
  "\<forall>y\<in>set (filter (top_generator ms) ms @ filter (top_tool ms) ms).
      top_generator ms y \<or> top_tool ms y"
  "mset (filter (top_generator ms) ms @ filter (top_tool ms) ms) =
     mset (filter (\<lambda>m. top_generator ms m \<or> top_tool ms m) ms)"
  "length (filter (top_generator ms) ms @ filter (top_tool ms) ms) =
     length (filter (\<lambda>m. top_generator ms m \<or> top_tool ms m) ms)"
proof -
  show "\<forall>y\<in>set (filter (top_generator ms) ms @ filter (top_tool ms) ms).
      top_generator ms y \<or> top_tool ms y"
    by auto
  show m: "mset (filter (top_generator ms) ms @ filter (top_tool ms) ms) =
     mset (filter (\<lambda>m. top_generator ms m \<or> top_tool ms m) ms)"
    by (rule mset_two_classes [OF kinds_apart])
  show "length (filter (top_generator ms) ms @ filter (top_tool ms) ms) =
     length (filter (\<lambda>m. top_generator ms m \<or> top_tool ms m) ms)"
    using m by (rule mset_eq_length)
qed

lemma ranked_class:
  "filter (\<lambda>m. top_generator ms m \<or> top_tool ms m) (ranked ms) =
     filter (top_generator ms) ms @ filter (top_tool ms) ms"
  unfolding ranked_def by (rule refill_class [OF ranked_queue(1) ranked_queue(3)])

lemma ranked_rest:
  "filter (\<lambda>m. \<not> (top_generator ms m \<or> top_tool ms m)) (ranked ms) =
     filter (\<lambda>m. \<not> (top_generator ms m \<or> top_tool ms m)) ms"
  unfolding ranked_def by (rule refill_rest [OF ranked_queue(1)])

lemma mset_ranked: "mset (ranked ms) = mset ms"
  unfolding ranked_def by (rule mset_refill [OF ranked_queue(1) ranked_queue(2)])

lemma set_ranked: "set (ranked ms) = set ms"
  using mset_ranked [of ms] by (rule mset_eq_setD)

lemma filter_filter_class:
  "(\<And>x. G x \<Longrightarrow> P x) \<Longrightarrow> filter G (filter P xs) = filter G xs"
  by (induction xs) auto

lemma ranked_generators: "filter (top_generator ms) (ranked ms) = filter (top_generator ms) ms"
proof -
  have "filter (top_generator ms) (ranked ms) =
        filter (top_generator ms) (filter (\<lambda>m. top_generator ms m \<or> top_tool ms m) (ranked ms))"
    by (rule filter_filter_class [symmetric]) simp
  also have "\<dots> = filter (top_generator ms) ms"
    unfolding ranked_class by (rule filter_two_classes(1) [OF kinds_apart])
  finally show ?thesis .
qed

lemma ranked_tools: "filter (top_tool ms) (ranked ms) = filter (top_tool ms) ms"
proof -
  have "filter (top_tool ms) (ranked ms) =
        filter (top_tool ms) (filter (\<lambda>m. top_generator ms m \<or> top_tool ms m) (ranked ms))"
    by (rule filter_filter_class [symmetric]) simp
  also have "\<dots> = filter (top_tool ms) ms"
    unfolding ranked_class by (rule filter_two_classes(2) [OF kinds_apart])
  finally show ?thesis .
qed

lemma ranked_tops:
  "top_generator (ranked ms) = top_generator ms" "top_tool (ranked ms) = top_tool ms"
  using at_top_set [OF set_ranked, of ms]
  by (auto simp: top_generator_def top_tool_def fun_eq_iff)

lemma ranked_same:
  "(\<forall>m\<in>set ms. \<not> top_tool ms m) \<or> (\<forall>m\<in>set ms. \<not> top_generator ms m) \<Longrightarrow> ranked ms = ms"
proof -
  assume h: "(\<forall>m\<in>set ms. \<not> top_tool ms m) \<or> (\<forall>m\<in>set ms. \<not> top_generator ms m)"
  have "filter (\<lambda>m. top_generator ms m \<or> top_tool ms m) ms =
        filter (top_generator ms) ms @ filter (top_tool ms) ms"
  proof (rule disjE [OF h])
    assume n: "\<forall>m\<in>set ms. \<not> top_tool ms m"
    then have "filter (top_tool ms) ms = []" by (simp add: filter_empty_conv)
    moreover have "filter (\<lambda>m. top_generator ms m \<or> top_tool ms m) ms = filter (top_generator ms) ms"
      using n by (intro filter_cong) auto
    ultimately show ?thesis by simp
  next
    assume n: "\<forall>m\<in>set ms. \<not> top_generator ms m"
    then have "filter (top_generator ms) ms = []" by (simp add: filter_empty_conv)
    moreover have "filter (\<lambda>m. top_generator ms m \<or> top_tool ms m) ms = filter (top_tool ms) ms"
      using n by (intro filter_cong) auto
    ultimately show ?thesis by simp
  qed
  then show ?thesis unfolding ranked_def by (rule refill_same)
qed


lemma outranked_iff:
  "outranked ms m \<longleftrightarrow>
     (\<exists>m'\<in>set ms. category m' = category m \<and> conf_rank (confidence m) < conf_rank (confidence m'))"
  by (simp add: outranked_def list_ex_iff)

lemma set_filterByRelevance:
  "set (filterByRelevance ms) =
     {m \<in> set ms. \<not> outranked ms m \<and> \<not> overlapped (filter (\<lambda>m. \<not> outranked ms m) ms) m}"
  by (auto simp: filterByRelevance_def Let_def set_ranked)

lemma filterByRelevance_pair:
  "kind s = StaticSiteGenerator \<Longrightarrow> kind t = GenericBuildTool \<Longrightarrow> confidence s = confidence t \<Longrightarrow>
     category s \<noteq> category t \<Longrightarrow> filterByRelevance [s, t] = [s, t] \<and> filterByRelevance [t, s] = [s, t]"
  "kind s = StaticSiteGenerator \<Longrightarrow> kind t = GenericBuildTool \<Longrightarrow> confidence s = confidence t \<Longrightarrow>
     category s = category t \<Longrightarrow> filterByRelevance [s, t] = [s] \<and> filterByRelevance [t, s] = [s]"
  "category a \<noteq> category b \<Longrightarrow> confidence a \<noteq> confidence b \<Longrightarrow> filterByRelevance [a, b] = [a, b]"
  "category a = category b \<Longrightarrow> conf_rank (confidence b) < conf_rank (confidence a) \<Longrightarrow>
     filterByRelevance [a, b] = [a] \<and> filterByRelevance [b, a] = [a]"
proof -
  show "filterByRelevance [s, t] = [s, t] \<and> filterByRelevance [t, s] = [s, t]"
    if "kind s = StaticSiteGenerator" "kind t = GenericBuildTool" "confidence s = confidence t"
      "category s \<noteq> category t"
    using that
    by (auto simp: filterByRelevance_def ranked_def outranked_def overlapped_def top_generator_def
        top_tool_def at_top_def Let_def)
  show "filterByRelevance [s, t] = [s] \<and> filterByRelevance [t, s] = [s]"
    if "kind s = StaticSiteGenerator" "kind t = GenericBuildTool" "confidence s = confidence t"
      "category s = category t"
    using that
    by (auto simp: filterByRelevance_def ranked_def outranked_def overlapped_def top_generator_def
        top_tool_def at_top_def Let_def)
  show "filterByRelevance [a, b] = [a, b]"
    if "category a \<noteq> category b" "confidence a \<noteq> confidence b"
  proof -
    have c: "conf_rank (confidence a) \<noteq> conf_rank (confidence b)"
      using that(2) by (cases "confidence a"; cases "confidence b") simp_all
    show ?thesis
      using that(1) c
      by (auto simp: filterByRelevance_def ranked_def outranked_def overlapped_def top_generator_def
          top_tool_def at_top_def Let_def)
  qed
  show "filterByRelevance [a, b] = [a] \<and> filterByRelevance [b, a] = [a]"
    if "category a = category b" "conf_rank (confidence b) < conf_rank (confidence a)"
    using that
    by (auto simp: filterByRelevance_def ranked_def outranked_def overlapped_def top_generator_def
        top_tool_def at_top_def Let_def)
qed


lemma refill_pattern: "\<forall>y\<in>set q. P y \<Longrightarrow> map P (refill P xs q) = map P xs"
proof (induction xs arbitrary: q)
  case Nil
  then show ?case by simp
next
  case (Cons x xs)
  show ?case
  proof (cases "P x")
    case False
    then show ?thesis using Cons by simp
  next
    case True
    show ?thesis
    proof (cases q)
      case Nil
      then show ?thesis using True Cons.IH [of "[]"] by simp
    next
      case (Cons y q')
      then have "P y" "\<forall>z\<in>set q'. P z" using Cons.prems by simp_all
      then show ?thesis using True Cons Cons.IH [of q'] by simp
    qed
  qed
qed

lemma ranked_pattern:
  "map (\<lambda>m. top_generator ms m \<or> top_tool ms m) (ranked ms) =
   map (\<lambda>m. top_generator ms m \<or> top_tool ms m) ms"
  unfolding ranked_def by (rule refill_pattern [OF ranked_queue(1)])

lemma classes_in_turn:
  assumes f: "filter P r = A @ B"
    and a: "\<forall>x\<in>set A. G x" and b: "\<forall>x\<in>set B. T x"
    and apart: "\<forall>x. \<not> (G x \<and> T x)"
    and cls: "\<forall>x. G x \<or> T x \<longrightarrow> P x"
    and t: "T t" and s: "G s"
  shows "r \<noteq> xs @ t # ys @ s # zs"
proof
  assume r: "r = xs @ t # ys @ s # zs"
  have "filter G (filter P r) = filter G r" "filter T (filter P r) = filter T r"
    using cls by (auto intro!: filter_cong)
  moreover have "filter G (A @ B) = A" "filter T (A @ B) = B"
    using a b apart by (auto simp: filter_empty_conv filter_id_conv)
  ultimately have g: "filter G r = A" and tl: "filter T r = B" using f by simp_all
  have ft: "filter (\<lambda>x. G x \<or> T x) r = A @ B"
  proof -
    have "filter (\<lambda>x. G x \<or> T x) (filter P r) = filter (\<lambda>x. G x \<or> T x) r"
      using cls by (auto intro!: filter_cong)
    moreover have "filter (\<lambda>x. G x \<or> T x) (A @ B) = A @ B"
      using a b by (auto simp: filter_id_conv)
    ultimately show ?thesis using f by simp
  qed
  have nt: "\<not> G t" and ns: "\<not> T s" using apart t s by auto
  have "filter (\<lambda>x. G x \<or> T x) r =
        filter (\<lambda>x. G x \<or> T x) xs @ t # filter (\<lambda>x. G x \<or> T x) ys @ s # filter (\<lambda>x. G x \<or> T x) zs"
    using r t s by simp
  then have e: "A @ B = filter (\<lambda>x. G x \<or> T x) xs @ t # filter (\<lambda>x. G x \<or> T x) ys @ s # filter (\<lambda>x. G x \<or> T x) zs"
    using ft by simp
  have "length A \<le> length (filter (\<lambda>x. G x \<or> T x) xs)"
  proof (rule ccontr)
    assume "\<not> length A \<le> length (filter (\<lambda>x. G x \<or> T x) xs)"
    then have l: "length (filter (\<lambda>x. G x \<or> T x) xs) < length A" by simp
    have "(A @ B) ! length (filter (\<lambda>x. G x \<or> T x) xs) = t"
      unfolding e by (simp add: nth_append)
    then have "A ! length (filter (\<lambda>x. G x \<or> T x) xs) = t" using l by (simp add: nth_append)
    then have "t \<in> set A" using l by (metis nth_mem)
    then show False using a nt by blast
  qed
  then have "s \<in> set B"
    using e by (auto simp: append_eq_append_conv2 append_eq_Cons_conv Cons_eq_append_conv)
  then show False using b ns by blast
qed


lemma filterByRelevance_kept:
  "filter (\<lambda>m. \<not> overlapped (filter (\<lambda>m. \<not> outranked ms m) ms) m) (filter (\<lambda>m. \<not> outranked ms m) ms) =
   filter (\<lambda>m. m \<in> set (filterByRelevance ms)) ms"
  unfolding set_filterByRelevance by (auto intro!: filter_cong)

lemma filterByRelevance_ranked:
  "filterByRelevance ms = ranked (filter (\<lambda>m. m \<in> set (filterByRelevance ms)) ms)"
proof -
  have "filterByRelevance ms =
        ranked (filter (\<lambda>m. \<not> overlapped (filter (\<lambda>m. \<not> outranked ms m) ms) m)
                  (filter (\<lambda>m. \<not> outranked ms m) ms))"
    by (simp add: filterByRelevance_def Let_def)
  then show ?thesis unfolding filterByRelevance_kept .
qed

lemma detectFrameworksInPath_resolved:
  "map (\<lambda>detect. detect p pth) (frameworks_registry env) = map Inr rs \<Longrightarrow>
     detectFrameworksInPath env p pth = filterByRelevance (filter_Boolean rs)"
  by (simp add: detectFrameworksInPath_def promise_all_resolved)

text \<open>
  C4: the relevance resolver drops every match for which a match of the same category
  and of higher confidence is present, and a match survives exactly when it is not
  so outranked and is not a generic build tool of top confidence whose category a
  static-site generator of top confidence has: every match that is not a generic
  build tool survives unless outranked, and so does a generic build tool when no
  static-site generator has its category. In the result the static-site generators
  of top confidence come before the generic build tools of top confidence, each of
  the two groups in registration order; no generic build tool of top confidence
  stands anywhere before a static-site generator of top confidence; every other
  match stands where registration put it, and when the result has no top generic
  build tool or no top static-site generator it is the surviving matches in
  registration order. For a static-site generator and a generic build tool of equal
  confidence the result is the generator then the tool, in either registration
  order, when their categories differ, and the generator alone when they share a
  category. Two matches of different categories and different confidences are both
  kept in registration order; of two matches of one category the one of higher
  confidence alone survives. When no detector rejects, \<open>detectFrameworksInPath\<close> is
  the resolver applied to the matches in registration order.
\<close>

theorem relevance_resolution:
  fixes ms :: "DetectedFramework list"
  defines "r \<equiv> filterByRelevance ms"
  defines "kept \<equiv> filter (\<lambda>m. m \<in> set r) ms"
  shows
    "(\<forall>m\<in>set ms. (\<exists>m'\<in>set ms. category m' = category m
          \<and> conf_rank (confidence m) < conf_rank (confidence m')) \<longrightarrow> m \<notin> set r)
     \<and> (\<forall>m. m \<in> set r \<longleftrightarrow>
            m \<in> set ms \<and> \<not> outranked ms m
            \<and> \<not> overlapped (filter (\<lambda>m. \<not> outranked ms m) ms) m)
     \<and> (\<forall>m\<in>set ms. \<not> outranked ms m \<and> kind m \<noteq> GenericBuildTool \<longrightarrow> m \<in> set r)
     \<and> (\<forall>m\<in>set ms. \<not> outranked ms m
            \<and> (\<forall>s\<in>set ms. kind s = StaticSiteGenerator \<longrightarrow> category s \<noteq> category m)
          \<longrightarrow> m \<in> set r)
     \<and> filter (\<lambda>m. top_generator r m \<or> top_tool r m) r =
         filter (top_generator r) kept @ filter (top_tool r) kept
     \<and> (\<forall>xs t ys s zs. top_tool r t \<and> top_generator r s \<longrightarrow> r \<noteq> xs @ t # ys @ s # zs)
     \<and> filter (\<lambda>m. \<not> (top_generator r m \<or> top_tool r m)) r =
         filter (\<lambda>m. \<not> (top_generator r m \<or> top_tool r m)) kept
     \<and> map (\<lambda>m. top_generator r m \<or> top_tool r m) r =
         map (\<lambda>m. top_generator r m \<or> top_tool r m) kept
     \<and> mset r = mset kept
     \<and> ((\<forall>m\<in>set r. \<not> top_tool r m) \<or> (\<forall>m\<in>set r. \<not> top_generator r m) \<longrightarrow> r = kept)
     \<and> (\<forall>s t. kind s = StaticSiteGenerator \<and> kind t = GenericBuildTool
            \<and> confidence s = confidence t \<and> category s \<noteq> category t
          \<longrightarrow> filterByRelevance [s, t] = [s, t] \<and> filterByRelevance [t, s] = [s, t])
     \<and> (\<forall>s t. kind s = StaticSiteGenerator \<and> kind t = GenericBuildTool
            \<and> confidence s = confidence t \<and> category s = category t
          \<longrightarrow> filterByRelevance [s, t] = [s] \<and> filterByRelevance [t, s] = [s])
     \<and> (\<forall>a b. category a \<noteq> category b \<and> confidence a \<noteq> confidence b
          \<longrightarrow> filterByRelevance [a, b] = [a, b])
     \<and> (\<forall>a b. category a = category b \<and> conf_rank (confidence b) < conf_rank (confidence a)
          \<longrightarrow> filterByRelevance [a, b] = [a] \<and> filterByRelevance [b, a] = [a])
     \<and> (\<forall>env p pth rs. map (\<lambda>detect. detect p pth) (frameworks_registry env) = map Inr rs
          \<longrightarrow> detectFrameworksInPath env p pth = filterByRelevance (filter_Boolean rs))"
proof -
  have rk: "r = ranked kept"
    unfolding r_def kept_def by (rule filterByRelevance_ranked)
  have tops: "top_generator r = top_generator kept" "top_tool r = top_tool kept"
    unfolding rk by (rule ranked_tops)+
  have mem: "\<forall>m. m \<in> set r \<longleftrightarrow>
            m \<in> set ms \<and> \<not> outranked ms m
            \<and> \<not> overlapped (filter (\<lambda>m. \<not> outranked ms m) ms) m"
    unfolding r_def set_filterByRelevance by simp
  have c1: "\<forall>m\<in>set ms. (\<exists>m'\<in>set ms. category m' = category m
          \<and> conf_rank (confidence m) < conf_rank (confidence m')) \<longrightarrow> m \<notin> set r"
    using mem by (simp add: outranked_iff)
  have c3: "\<forall>m\<in>set ms. \<not> outranked ms m \<and> kind m \<noteq> GenericBuildTool \<longrightarrow> m \<in> set r"
    using mem by (simp add: overlapped_def top_tool_def)
  have c4: "\<forall>m\<in>set ms. \<not> outranked ms m
            \<and> (\<forall>s\<in>set ms. kind s = StaticSiteGenerator \<longrightarrow> category s \<noteq> category m)
          \<longrightarrow> m \<in> set r"
    using mem by (auto simp: overlapped_def top_generator_def list_ex_iff)
  have c5: "filter (\<lambda>m. top_generator r m \<or> top_tool r m) r =
         filter (top_generator r) kept @ filter (top_tool r) kept"
    unfolding tops unfolding rk by (rule ranked_class)
  have c6: "\<forall>xs t ys s zs. top_tool r t \<and> top_generator r s \<longrightarrow> r \<noteq> xs @ t # ys @ s # zs"
  proof (intro allI impI)
    fix xs t ys s zs
    assume h: "top_tool r t \<and> top_generator r s"
    show "r \<noteq> xs @ t # ys @ s # zs"
      by (rule classes_in_turn [OF c5 _ _ kinds_apart [of r]]) (use h in simp_all)
  qed
  have c7: "filter (\<lambda>m. \<not> (top_generator r m \<or> top_tool r m)) r =
         filter (\<lambda>m. \<not> (top_generator r m \<or> top_tool r m)) kept"
    unfolding tops unfolding rk by (rule ranked_rest)
  have c8: "map (\<lambda>m. top_generator r m \<or> top_tool r m) r =
         map (\<lambda>m. top_generator r m \<or> top_tool r m) kept"
    unfolding tops unfolding rk by (rule ranked_pattern)
  have c9: "mset r = mset kept"
    unfolding rk by (rule mset_ranked)
  have c10: "(\<forall>m\<in>set r. \<not> top_tool r m) \<or> (\<forall>m\<in>set r. \<not> top_generator r m) \<longrightarrow> r = kept"
  proof
    assume "(\<forall>m\<in>set r. \<not> top_tool r m) \<or> (\<forall>m\<in>set r. \<not> top_generator r m)"
    then have "(\<forall>m\<in>set kept. \<not> top_tool kept m) \<or> (\<forall>m\<in>set kept. \<not> top_generator kept m)"
      unfolding tops unfolding rk set_ranked .
    then show "r = kept" unfolding rk by (rule ranked_same)
  qed
  have c11: "\<forall>s t. kind s = StaticSiteGenerator \<and> kind t = GenericBuildTool
            \<and> confidence s = confidence t \<and> category s \<noteq> category t
          \<longrightarrow> filterByRelevance [s, t] = [s, t] \<and> filterByRelevance [t, s] = [s, t]"
    using filterByRelevance_pair(1) by blast
  have c12: "\<forall>s t. kind s = StaticSiteGenerator \<and> kind t = GenericBuildTool
            \<and> confidence s = confidence t \<and> category s = category t
          \<longrightarrow> filterByRelevance [s, t] = [s] \<and> filterByRelevance [t, s] = [s]"
    using filterByRelevance_pair(2) by blast
  have c13: "\<forall>a b. category a \<noteq> category b \<and> confidence a \<noteq> confidence b
          \<longrightarrow> filterByRelevance [a, b] = [a, b]"
    using filterByRelevance_pair(3) by blast
  have c14: "\<forall>a b. category a = category b \<and> conf_rank (confidence b) < conf_rank (confidence a)
          \<longrightarrow> filterByRelevance [a, b] = [a] \<and> filterByRelevance [b, a] = [a]"
    using filterByRelevance_pair(4) by blast
  have c15: "\<forall>env p pth rs. map (\<lambda>detect. detect p pth) (frameworks_registry env) = map Inr rs
          \<longrightarrow> detectFrameworksInPath env p pth = filterByRelevance (filter_Boolean rs)"
    using detectFrameworksInPath_resolved by blast
  show ?thesis
    by (intro conjI) (fact c1 mem c3 c4 c5 c6 c7 c8 c9 c10 c11 c12 c13 c14 c15)+
qed


theorem relevance_resolution_witness:
  "filterByRelevance [staticSiteGen, genericBuildTool] = [staticSiteGen, genericBuildTool]
   \<and> filterByRelevance [genericBuildTool, staticSiteGen] = [genericBuildTool, staticSiteGen]
   \<and> filterByRelevance [staticSiteGen, genericBuildTool\<lparr>category := ''generator''\<rparr>] = [staticSiteGen]
   \<and> filterByRelevance [genericBuildTool\<lparr>category := ''generator''\<rparr>, staticSiteGen] = [staticSiteGen]
   \<and> filterByRelevance [genericBuildTool\<lparr>confidence := Highest\<rparr>, staticSiteGen]
       = [staticSiteGen, genericBuildTool\<lparr>confidence := Highest\<rparr>]
   \<and> filterByRelevance [staticSiteGen, genericBuildTool\<lparr>confidence := Highest\<rparr>]
       = [staticSiteGen, genericBuildTool\<lparr>confidence := Highest\<rparr>]
   \<and> filterByRelevance [genericBuildTool\<lparr>confidence := Highest, category := ''generator''\<rparr>, staticSiteGen]
       = [staticSiteGen]
   \<and> staticSiteGen \<in> set (filterByRelevance
         [genericBuildTool\<lparr>confidence := Highest\<rparr>, staticSiteGen,
          genericBuildTool\<lparr>category := ''generator''\<rparr>])
   \<and> genericBuildTool\<lparr>confidence := Highest\<rparr> \<in> set (filterByRelevance
         [genericBuildTool\<lparr>confidence := Highest\<rparr>, staticSiteGen,
          genericBuildTool\<lparr>category := ''generator''\<rparr>])
   \<and> genericBuildTool\<lparr>category := ''generator''\<rparr> \<notin> set (filterByRelevance
         [genericBuildTool\<lparr>confidence := Highest\<rparr>, staticSiteGen,
          genericBuildTool\<lparr>category := ''generator''\<rparr>])
   \<and> (\<forall>xs ys zs. filterByRelevance
         [genericBuildTool\<lparr>confidence := Highest\<rparr>, staticSiteGen,
          genericBuildTool\<lparr>category := ''generator''\<rparr>]
        \<noteq> xs @ genericBuildTool\<lparr>confidence := Highest\<rparr> # ys @ staticSiteGen # zs)
   \<and> detectFrameworksInPath workspace_env fresh (Some ''/repo/pkg-a'') = [staticSiteGen]"
proof -
  define hi where "hi = genericBuildTool\<lparr>confidence := Highest\<rparr>"
  define gen where "gen = genericBuildTool\<lparr>category := ''generator''\<rparr>"
  define ms where "ms = [hi, staticSiteGen, gen]"
  note R = relevance_resolution [of ms]
  note R1 = R [THEN conjunct1] and T1 = R [THEN conjunct2]
  note R2 = T1 [THEN conjunct1] and T2 = T1 [THEN conjunct2]
  note R3 = T2 [THEN conjunct1] and T3 = T2 [THEN conjunct2]
  note R4 = T3 [THEN conjunct1] and T4 = T3 [THEN conjunct2]
  note R5 = T4 [THEN conjunct1] and T5 = T4 [THEN conjunct2]
  note R6 = T5 [THEN conjunct1] and T6 = T5 [THEN conjunct2]
  note R7 = T6 [THEN conjunct1] and T7 = T6 [THEN conjunct2]
  note R8 = T7 [THEN conjunct1] and T8 = T7 [THEN conjunct2]
  note R9 = T8 [THEN conjunct1] and T9 = T8 [THEN conjunct2]
  note R10 = T9 [THEN conjunct1] and T10 = T9 [THEN conjunct2]
  note R11 = T10 [THEN conjunct1] and T11 = T10 [THEN conjunct2]
  note R12 = T11 [THEN conjunct1] and T12 = T11 [THEN conjunct2]
  note R13 = T12 [THEN conjunct1] and T13 = T12 [THEN conjunct2]
  note R14 = T13 [THEN conjunct1] and T14 = T13 [THEN conjunct2]
  have fx: "kind staticSiteGen = StaticSiteGenerator" "category staticSiteGen = ''generator''"
    "confidence staticSiteGen = Highest"
    "kind genericBuildTool = GenericBuildTool" "category genericBuildTool = ''bundler''"
    "confidence genericBuildTool = Lowest"
    by (simp_all add: staticSiteGen_def genericBuildTool_def)
  have 1: "filterByRelevance [staticSiteGen, genericBuildTool] = [staticSiteGen, genericBuildTool]
     \<and> filterByRelevance [genericBuildTool, staticSiteGen] = [genericBuildTool, staticSiteGen]"
  proof -
    from R13 have "\<forall>a b. category a \<noteq> category b \<and> confidence a \<noteq> confidence b
          \<longrightarrow> filterByRelevance [a, b] = [a, b]" .
    then show ?thesis by (simp add: fx)
  qed
  have 2: "filterByRelevance [staticSiteGen, gen] = [staticSiteGen]
     \<and> filterByRelevance [gen, staticSiteGen] = [staticSiteGen]"
  proof -
    from R14 have "\<forall>a b. category a = category b \<and> conf_rank (confidence b) < conf_rank (confidence a)
          \<longrightarrow> filterByRelevance [a, b] = [a] \<and> filterByRelevance [b, a] = [a]" .
    then show ?thesis by (simp add: fx gen_def)
  qed
  have 3: "filterByRelevance [hi, staticSiteGen] = [staticSiteGen, hi]
     \<and> filterByRelevance [staticSiteGen, hi] = [staticSiteGen, hi]"
  proof -
    from R11 have "\<forall>s t. kind s = StaticSiteGenerator \<and> kind t = GenericBuildTool
            \<and> confidence s = confidence t \<and> category s \<noteq> category t
          \<longrightarrow> filterByRelevance [s, t] = [s, t] \<and> filterByRelevance [t, s] = [s, t]" .
    then show ?thesis by (simp add: fx hi_def)
  qed
  have 4: "filterByRelevance [hi\<lparr>category := ''generator''\<rparr>, staticSiteGen] = [staticSiteGen]"
  proof -
    from R12 have "\<forall>s t. kind s = StaticSiteGenerator \<and> kind t = GenericBuildTool
            \<and> confidence s = confidence t \<and> category s = category t
          \<longrightarrow> filterByRelevance [s, t] = [s] \<and> filterByRelevance [t, s] = [s]" .
    then show ?thesis by (simp add: fx hi_def)
  qed
  have apart: "hi \<noteq> staticSiteGen" "gen \<noteq> staticSiteGen" "hi \<noteq> gen"
    by (simp_all add: hi_def gen_def staticSiteGen_def genericBuildTool_def)
  have out: "\<not> outranked ms staticSiteGen" "\<not> outranked ms hi"
    by (simp_all add: outranked_def ms_def fx hi_def gen_def)
  have 5: "staticSiteGen \<in> set (filterByRelevance ms)"
  proof -
    from R3 have "\<forall>m\<in>set ms. \<not> outranked ms m \<and> kind m \<noteq> GenericBuildTool
        \<longrightarrow> m \<in> set (filterByRelevance ms)" .
    then show ?thesis using out by (simp add: ms_def fx)
  qed
  have 6: "hi \<in> set (filterByRelevance ms)"
  proof -
    from R2 have "\<forall>m. m \<in> set (filterByRelevance ms) \<longleftrightarrow>
            m \<in> set ms \<and> \<not> outranked ms m
            \<and> \<not> overlapped (filter (\<lambda>m. \<not> outranked ms m) ms) m" .
    moreover have "\<not> overlapped (filter (\<lambda>m. \<not> outranked ms m) ms) hi"
      by (simp add: overlapped_def top_generator_def top_tool_def at_top_def outranked_def
          ms_def fx hi_def gen_def)
    ultimately show ?thesis using out by (simp add: ms_def)
  qed
  have 7: "gen \<notin> set (filterByRelevance ms)"
  proof -
    from R1 have "\<forall>m\<in>set ms. (\<exists>m'\<in>set ms. category m' = category m
          \<and> conf_rank (confidence m) < conf_rank (confidence m')) \<longrightarrow> m \<notin> set (filterByRelevance ms)"
      .
    then show ?thesis by (simp add: ms_def fx gen_def)
  qed
  have 8: "\<forall>xs ys zs. filterByRelevance ms \<noteq> xs @ hi # ys @ staticSiteGen # zs"
  proof -
    from R6 have o: "\<forall>xs t ys s zs. top_tool (filterByRelevance ms) t \<and> top_generator (filterByRelevance ms) s
        \<longrightarrow> filterByRelevance ms \<noteq> xs @ t # ys @ s # zs" .
    have "set (filterByRelevance ms) \<subseteq> set ms"
      by (auto simp: set_filterByRelevance)
    then have top: "at_top (filterByRelevance ms) hi" "at_top (filterByRelevance ms) staticSiteGen"
      by (auto simp: at_top_def list_ex_iff ms_def fx hi_def gen_def)
    have "top_tool (filterByRelevance ms) hi \<and> top_generator (filterByRelevance ms) staticSiteGen"
      using top by (simp add: top_tool_def top_generator_def fx hi_def)
    then show ?thesis using o by blast
  qed
  have r: "map (\<lambda>detect. detect fresh (Some ''/repo/pkg-a'')) (frameworks_registry workspace_env)
      = map Inr [Some staticSiteGen]"
    by (simp add: workspace_env_simps)
  have 9: "detectFrameworksInPath workspace_env fresh (Some ''/repo/pkg-a'') = [staticSiteGen]"
  proof -
    from T14 have "\<forall>env p pth rs. map (\<lambda>detect. detect p pth) (frameworks_registry env) = map Inr rs
          \<longrightarrow> detectFrameworksInPath env p pth = filterByRelevance (filter_Boolean rs)" .
    then have "detectFrameworksInPath workspace_env fresh (Some ''/repo/pkg-a'')
        = filterByRelevance (filter_Boolean [Some staticSiteGen])" using r by blast
    then show ?thesis by (simp add: filterByRelevance_single)
  qed
  from 1 2 3 4 5 6 7 8 9 show ?thesis
    unfolding ms_def hi_def gen_def by simp
qed

section \<open>Concurrent first calls\<close>

text \<open>The accessor is its call followed by its resumption.\<close>

lemma detectPackageManager_in_two_steps:
  "detectPackageManager env p =
     (case detectPackageManager_call env p of (c, p1) \<Rightarrow>
      case detectPackageManager_resume env c p1 of (v, p2) \<Rightarrow> (Inr v, p2))"
  by (simp add: detectPackageManager_def detectPackageManager_call_def
      detectPackageManager_resume_def Let_def split: option.splits sum.splits prod.splits)

lemma changing_env_simps:
  "detectPackageManager_impl changing_env =
     (\<lambda>p. if ran p = [StagePackageManager] then Inr (Some npm) else Inr (Some yarn))"
  "emit_throws changing_env = (\<lambda>ev p. None)"
  "report_throws changing_env = (\<lambda>e p. None)"
  by (simp_all add: changing_env_def quiet_env_def)

text \<open>
  C6, as stated, fails: two callers that call \<open>detectPackageManager\<close> before the
  result is stored start the detection logic twice, whichever call is resumed
  first, and here the first receives npm and the second yarn.
\<close>

theorem concurrent_calls_detect_twice:
  "fst (two_callers changing_env FirstCallFirst fresh) = (Some npm, Some yarn)
   \<and> ran (snd (two_callers changing_env FirstCallFirst fresh)) =
        [StagePackageManager, StagePackageManager]
   \<and> fst (two_callers changing_env SecondCallFirst fresh) = (Some npm, Some yarn)
   \<and> ran (snd (two_callers changing_env SecondCallFirst fresh)) =
        [StagePackageManager, StagePackageManager]"
  by (simp add: two_callers_def detectPackageManager_call_def detectPackageManager_resume_def
      changing_env_simps fresh_simps emit_def Let_def)

text \<open>
  C6, amended: when two callers call \<open>detectPackageManager\<close> before the result is
  stored, each call starts its own run of the detection logic, so it runs twice,
  in whichever order the two calls are resumed. A caller whose run threw receives
  \<open>null\<close>. When both runs resolve and no listener throws, each caller receives the
  result of the run its own call started, both events are emitted in the order of
  resumption, and the field ends with the result of the call resumed last.
\<close>

theorem concurrent_calls_each_detect:
  fixes env :: Env and p :: Project
  defines "p1 \<equiv> p\<lparr>ran := ran p @ [StagePackageManager]\<rparr>"
    and "p2 \<equiv> p\<lparr>ran := ran p @ [StagePackageManager, StagePackageManager]\<rparr>"
  assumes unset: "packageManager p = None"
  shows "detectPackageManager_call env p = (Awaiting (detectPackageManager_impl env p1), p1)
     \<and> detectPackageManager_call env p1 = (Awaiting (detectPackageManager_impl env p2), p2)
     \<and> ran (snd (two_callers env ord p)) = ran p @ [StagePackageManager, StagePackageManager]
     \<and> (detectPackageManager_impl env p1 = Inl e \<longrightarrow> fst (fst (two_callers env ord p)) = None)
     \<and> (detectPackageManager_impl env p2 = Inl e \<longrightarrow> snd (fst (two_callers env ord p)) = None)
     \<and> (detectPackageManager_impl env p1 = Inr a \<and> detectPackageManager_impl env p2 = Inr b
        \<and> (\<forall>ev q. emit_throws env ev q = None)
        \<longrightarrow> fst (two_callers env ord p) = (a, b)
            \<and> packageManager (snd (two_callers env ord p)) =
                Some (case ord of FirstCallFirst \<Rightarrow> b | SecondCallFirst \<Rightarrow> a)
            \<and> emitted (snd (two_callers env ord p)) =
                emitted p @ (case ord of
                    FirstCallFirst \<Rightarrow> [Ev_detectPackageManager a, Ev_detectPackageManager b]
                  | SecondCallFirst \<Rightarrow> [Ev_detectPackageManager b, Ev_detectPackageManager a]))"
proof -
  have c1: "detectPackageManager_call env p = (Awaiting (detectPackageManager_impl env p1), p1)"
    using unset by (simp add: detectPackageManager_call_def p1_def Let_def)
  have c2: "detectPackageManager_call env p1 = (Awaiting (detectPackageManager_impl env p2), p2)"
    using unset by (simp add: detectPackageManager_call_def p1_def p2_def Let_def)
  have r: "ran (snd (two_callers env ord p)) = ran p @ [StagePackageManager, StagePackageManager]"
    by (cases ord)
       (simp_all add: two_callers_def c1 c2 detectPackageManager_resume_def emit_def p2_def
          split: sum.splits option.splits)
  have f1: "fst (fst (two_callers env ord p)) = None" if "detectPackageManager_impl env p1 = Inl e"
    using that
    by (cases ord)
       (simp_all add: two_callers_def c1 c2 detectPackageManager_resume_def emit_def
          split: sum.splits option.splits)
  have f2: "snd (fst (two_callers env ord p)) = None" if "detectPackageManager_impl env p2 = Inl e"
    using that
    by (cases ord)
       (simp_all add: two_callers_def c1 c2 detectPackageManager_resume_def emit_def
          split: sum.splits option.splits)
  have ok: "fst (two_callers env ord p) = (a, b)
            \<and> packageManager (snd (two_callers env ord p)) =
                Some (case ord of FirstCallFirst \<Rightarrow> b | SecondCallFirst \<Rightarrow> a)
            \<and> emitted (snd (two_callers env ord p)) =
                emitted p @ (case ord of
                    FirstCallFirst \<Rightarrow> [Ev_detectPackageManager a, Ev_detectPackageManager b]
                  | SecondCallFirst \<Rightarrow> [Ev_detectPackageManager b, Ev_detectPackageManager a])"
    if "detectPackageManager_impl env p1 = Inr a" "detectPackageManager_impl env p2 = Inr b"
      "\<forall>ev q. emit_throws env ev q = None"
    using that
    by (cases ord)
       (simp_all add: two_callers_def c1 c2 detectPackageManager_resume_def emit_def p2_def)
  from c1 c2 r f1 f2 ok show ?thesis by blast
qed

theorem concurrent_calls_each_detect_witness:
  "ran (snd (two_callers changing_env FirstCallFirst fresh)) =
      [StagePackageManager, StagePackageManager]
   \<and> fst (two_callers changing_env FirstCallFirst fresh) = (Some npm, Some yarn)
   \<and> packageManager (snd (two_callers changing_env FirstCallFirst fresh)) = Some (Some yarn)
   \<and> emitted (snd (two_callers changing_env FirstCallFirst fresh)) =
        [Ev_detectPackageManager (Some npm), Ev_detectPackageManager (Some yarn)]
   \<and> fst (two_callers changing_env SecondCallFirst fresh) = (Some npm, Some yarn)
   \<and> packageManager (snd (two_callers changing_env SecondCallFirst fresh)) = Some (Some npm)
   \<and> emitted (snd (two_callers changing_env SecondCallFirst fresh)) =
        [Ev_detectPackageManager (Some yarn), Ev_detectPackageManager (Some npm)]
   \<and> fst (fst (two_callers failing_env FirstCallFirst fresh)) = None
   \<and> snd (fst (two_callers failing_env SecondCallFirst fresh)) = None"
proof -
  note t = concurrent_calls_each_detect [OF fresh_simps(1)]
  have 1: "ran (snd (two_callers changing_env FirstCallFirst fresh)) =
      [StagePackageManager, StagePackageManager]
   \<and> fst (two_callers changing_env FirstCallFirst fresh) = (Some npm, Some yarn)
   \<and> packageManager (snd (two_callers changing_env FirstCallFirst fresh)) = Some (Some yarn)
   \<and> emitted (snd (two_callers changing_env FirstCallFirst fresh)) =
        [Ev_detectPackageManager (Some npm), Ev_detectPackageManager (Some yarn)]"
    using t [of changing_env FirstCallFirst _ "Some npm" "Some yarn"]
    by (simp add: changing_env_simps fresh_simps)
  have 2: "fst (two_callers changing_env SecondCallFirst fresh) = (Some npm, Some yarn)
   \<and> packageManager (snd (two_callers changing_env SecondCallFirst fresh)) = Some (Some npm)
   \<and> emitted (snd (two_callers changing_env SecondCallFirst fresh)) =
        [Ev_detectPackageManager (Some yarn), Ev_detectPackageManager (Some npm)]"
    using t [of changing_env SecondCallFirst _ "Some npm" "Some yarn"]
    by (simp add: changing_env_simps fresh_simps)
  have 3: "fst (fst (two_callers failing_env FirstCallFirst fresh)) = None"
    using t [of failing_env FirstCallFirst "Error ''package manager''"]
    by (simp add: failing_env_simps)
  have 4: "snd (fst (two_callers failing_env SecondCallFirst fresh)) = None"
    using t [of failing_env SecondCallFirst "Error ''package manager''"]
    by (simp add: failing_env_simps)
  from 1 2 3 4 show ?thesis by blast
qed

section \<open>No lockfile\<close>

lemma resolver_env_simps:
  "detectPackageManager_impl resolver_env = packageManagerResolver [npm, yarn]"
  "detectWorkspaces_impl resolver_env = workspaceResolver (\<lambda>p. Inl (Error ''locate''))"
  "emit_throws resolver_env = (\<lambda>ev p. None)"
  "report_throws resolver_env = (\<lambda>e p. None)"
  by (simp_all add: resolver_env_def quiet_env_def)

lemma packageManagerResolver_none:
  "\<forall>d\<in>set ds. \<exists>m. findUp (fs p) (lockFiles d) (baseDirectory p) (root p) = Inr m \<and> \<not> truthy m \<Longrightarrow>
     packageManagerResolver ds p = Inr None"
  by (induction ds) auto

lemma packageManagerResolver_site:
  "fs q = fs p \<Longrightarrow> baseDirectory q = baseDirectory p \<Longrightarrow> root q = root p \<Longrightarrow>
     packageManagerResolver ds q = packageManagerResolver ds p"
  by (induction ds) (simp_all split: sum.splits)

text \<open>
  C9: with the resolvers of the first two stages as the spec describes them, on a
  project where no descriptor's lockfile or config marker is found, and with
  listeners that do not throw, the package manager accessor resolves to \<open>null\<close> and
  stores it, and the workspace accessor resolves to \<open>null\<close> and stores it. The
  workspace resolver returns at its test of the package manager: the outcome does
  not mention \<open>locate\<close>, and it is the same with any other way of locating a
  manifest, also one that throws. Nothing is reported.
\<close>

theorem no_lockfile_no_workspace:
  assumes resolvers: "detectPackageManager_impl env = packageManagerResolver descriptors"
      "detectWorkspaces_impl env = workspaceResolver locate"
    and nomarker: "\<forall>d\<in>set descriptors.
        \<exists>m. findUp (fs p) (lockFiles d) (baseDirectory p) (root p) = Inr m \<and> \<not> truthy m"
    and unset: "packageManager p = None" "workspace p = None"
    and quiet: "\<forall>ev q. emit_throws env ev q = None"
  shows "detectPackageManager env p =
           (Inr None, p\<lparr>ran := ran p @ [StagePackageManager], packageManager := Some None,
                        emitted := emitted p @ [Ev_detectPackageManager None]\<rparr>)
     \<and> detectWorkspaces env p =
           (Inr None, p\<lparr>ran := ran p @ [StagePackageManager, StageWorkspace],
                        packageManager := Some None, workspace := Some None,
                        emitted := emitted p @ [Ev_detectPackageManager None, Ev_detectWorkspaces None]\<rparr>)
     \<and> detectWorkspaces (env\<lparr>detectWorkspaces_impl := workspaceResolver other\<rparr>) p =
           detectWorkspaces env p
     \<and> reported (snd (detectPackageManager env p)) = reported p
     \<and> reported (snd (detectWorkspaces env p)) = reported p"
proof -
  have pm: "packageManagerResolver descriptors (p\<lparr>ran := ran p @ [StagePackageManager]\<rparr>) = Inr None"
    using packageManagerResolver_site [of "p\<lparr>ran := ran p @ [StagePackageManager]\<rparr>" p descriptors]
      packageManagerResolver_none [OF nomarker]
    by simp
  have 1: "detectPackageManager env' p =
           (Inr None, p\<lparr>ran := ran p @ [StagePackageManager], packageManager := Some None,
                        emitted := emitted p @ [Ev_detectPackageManager None]\<rparr>)"
    if "detectPackageManager_impl env' = packageManagerResolver descriptors"
      "\<forall>ev q. emit_throws env' ev q = None" for env'
    using unset that pm
    by (simp add: detectPackageManager_def emit_def)
  have 2: "detectWorkspaces env' p =
           (Inr None, p\<lparr>ran := ran p @ [StagePackageManager, StageWorkspace],
                        packageManager := Some None, workspace := Some None,
                        emitted := emitted p @ [Ev_detectPackageManager None, Ev_detectWorkspaces None]\<rparr>)"
    if "detectPackageManager_impl env' = packageManagerResolver descriptors"
      "detectWorkspaces_impl env' = workspaceResolver locate'"
      "\<forall>ev q. emit_throws env' ev q = None" for env' locate'
    using unset that
    by (simp add: detectWorkspaces_def 1 workspaceResolver_def emit_def)
  have 3: "detectWorkspaces (env\<lparr>detectWorkspaces_impl := workspaceResolver other\<rparr>) p =
           detectWorkspaces env p"
    using 2 [of env locate] 2 [of "env\<lparr>detectWorkspaces_impl := workspaceResolver other\<rparr>" other]
      resolvers quiet
    by simp
  from 1 [of env] 2 [of env locate] 3 resolvers quiet show ?thesis by simp
qed

theorem no_lockfile_no_workspace_witness:
  "detectPackageManager resolver_env fresh =
      (Inr None, fresh\<lparr>ran := [StagePackageManager], packageManager := Some None,
                       emitted := [Ev_detectPackageManager None]\<rparr>)
   \<and> detectWorkspaces resolver_env fresh =
      (Inr None, fresh\<lparr>ran := [StagePackageManager, StageWorkspace],
                       packageManager := Some None, workspace := Some None,
                       emitted := [Ev_detectPackageManager None, Ev_detectWorkspaces None]\<rparr>)
   \<and> reported (snd (detectWorkspaces resolver_env fresh)) = []"
proof -
  have n: "\<forall>d\<in>set [npm, yarn].
        \<exists>m. findUp (fs fresh) (lockFiles d) (baseDirectory fresh) (root fresh) = Inr m \<and> \<not> truthy m"
    by (simp add: fresh_simps truthy_def)
  have q: "\<forall>ev q. emit_throws resolver_env ev q = None"
    by (simp add: resolver_env_simps)
  from no_lockfile_no_workspace [OF resolver_env_simps(1,2) n fresh_simps(1,2) q]
  show ?thesis by (simp add: fresh_simps)
qed

end
